theory Spec2Isabelle
  imports Complex_Main "HOL-Library.Word" "HOL-Library.Multiset" "HOL-Library.Log_Nat"
begin

unbundle bit_operations_syntax

section \<open>JavaScript values used by the sampler\<close>

text \<open>
  A JavaScript string is modelled as a \<^typ>\<open>string\<close> whose characters are the
  code units \<open>0..255\<close> (the Latin-1 range); \<open>charCodeAt\<close> is \<^const>\<open>of_char\<close>.
  A JavaScript number is a double.  The finite doubles are rational numbers, and a
  number is modelled by its value: an \<^typ>\<open>int\<close> where the program holds whole
  numbers (seeds, hashes, the counter of a generator), a \<^typ>\<open>rat\<close> for the draws
  of a generator.  Every sum and product that the program computes on numbers is
  rounded to the nearest double, ties to even, as the machine does.  Batch indices
  and batch sizes are loop counters starting at 0 and are modelled as \<^typ>\<open>nat\<close>.
\<close>

subsection \<open>Rounding to a double\<close>

text \<open>
  For \<open>x > 0\<close>, \<open>binade x\<close> is the exponent \<open>k\<close> with \<open>2^k \<le> x < 2^(k+1)\<close>, found
  from the bit lengths of numerator and denominator.
\<close>

definition binade :: "rat \<Rightarrow> int" where
  "binade x =
     (let (a, b) = quotient_of x; k = bitlen a - bitlen b
      in if 2 powi k \<le> x then k else k - 1)"

definition roundHalfEven :: "rat \<Rightarrow> int" where
  "roundHalfEven y =
     (let f = \<lfloor>y\<rfloor>; d = y - of_int f
      in if d < 1 / 2 then f else if 1 / 2 < d then f + 1 else if even f then f else f + 1)"

text \<open>
  The double nearest to \<open>x\<close>: a multiple of the spacing \<open>2^(k-52)\<close> of the doubles
  around \<open>x\<close>, and of \<open>2^-1074\<close> among the subnormal ones.  Overflow to infinity
  (from \<open>2^1024\<close> on) is not modelled; no sum or product of the program on its own
  numbers comes near it.
\<close>

definition toDouble :: "rat \<Rightarrow> rat" where
  "toDouble x =
     (if x = 0 then 0
      else let q = 2 powi (max (binade \<bar>x\<bar>) (- 1022) - 52)
           in sgn x * (of_int (roundHalfEven (\<bar>x\<bar> / q)) * q))"

text \<open>The finite doubles: 53 bits of mantissa, exponents from \<open>-1074\<close>.\<close>

definition isDouble :: "rat \<Rightarrow> bool" where
  "isDouble u \<longleftrightarrow> (\<exists>m e. u = of_int m * 2 powi e \<and> \<bar>m\<bar> < 2 ^ 53 \<and> - 1074 \<le> e)"

text \<open>\<open>a + b\<close> and \<open>a * b\<close> on whole numbers; the rounded result is whole again.\<close>

definition js_add :: "int \<Rightarrow> int \<Rightarrow> int" where
  "js_add a b = \<lfloor>toDouble (of_int a + of_int b)\<rfloor>"

definition js_mul :: "int \<Rightarrow> int \<Rightarrow> int" where
  "js_mul a b = \<lfloor>toDouble (of_int a * of_int b)\<rfloor>"

subsection \<open>\<open>String.prototype.trim\<close> and \<open>toLowerCase\<close>\<close>

definition isWhiteSpace :: "char \<Rightarrow> bool" where
  "isWhiteSpace c = ((of_char c :: nat) \<in> {9, 10, 11, 12, 13, 32, 160})"

definition trim :: "string \<Rightarrow> string" where
  "trim s = rev (dropWhile isWhiteSpace (rev (dropWhile isWhiteSpace s)))"

definition lowerChar :: "char \<Rightarrow> char" where
  "lowerChar c =
     (let n = (of_char c :: nat)
      in if (65 \<le> n \<and> n \<le> 90) \<or> (192 \<le> n \<and> n \<le> 222 \<and> n \<noteq> 215)
         then char_of (n + 32) else c)"

definition toLowerCase :: "string \<Rightarrow> string" where
  "toLowerCase s = map lowerChar s"

subsection \<open>\<open>text.split(/[\\n,]/g)\<close>\<close>

definition isSeparator :: "char \<Rightarrow> bool" where
  "isSeparator c = (c = CHR 0x0A \<or> c = CHR '','')"

fun split_list :: "string \<Rightarrow> string list" where
  "split_list [] = [[]]"
| "split_list (c # cs) =
     (if isSeparator c then [] # split_list cs
      else (case split_list cs of
              [] \<Rightarrow> [[c]]
            | w # ws \<Rightarrow> (c # w) # ws))"

subsection \<open>Array reads\<close>

text \<open>Reading \<open>arr[i]\<close> outside the array gives \<open>undefined\<close>, here \<open>None\<close>.\<close>

definition js_nth :: "'a list \<Rightarrow> int \<Rightarrow> 'a option" where
  "js_nth xs i = (if 0 \<le> i \<and> i < int (length xs) then Some (xs ! nat i) else None)"

section \<open>\<open>src/utils/random.ts\<close>\<close>

text \<open>
  The filter with the \<open>seen\<close> set that both \<open>toList\<close> and
  \<open>normalizeUniqueCaseInsensitive\<close> run: an entry is kept when its lowercase form has
  not been seen, and is then added to the set.
\<close>

fun filterSeen :: "string set \<Rightarrow> string list \<Rightarrow> string list" where
  "filterSeen seen [] = []"
| "filterSeen seen (t # ts) =
     (if toLowerCase t \<in> seen then filterSeen seen ts
      else t # filterSeen (insert (toLowerCase t) seen) ts)"

definition toList :: "string \<Rightarrow> string list" where
  "toList text =
     (if text = [] then []
      else let raw = filter (\<lambda>s. s \<noteq> []) (map trim (split_list text))
           in filterSeen {} raw)"

section \<open>\<open>src/utils/randomPicker.ts\<close>: candidates\<close>

record CandidatePool =
  label :: string
  listText :: "string option"
  listArray :: "string list option"
  selections :: "string list option"
  isRandomized :: bool

definition normalizeUniqueCaseInsensitive :: "string list \<Rightarrow> string list" where
  "normalizeUniqueCaseInsensitive arr =
     filterSeen {} (filter (\<lambda>s. s \<noteq> []) (map trim arr))"

definition listFallback :: "CandidatePool \<Rightarrow> string list" where
  "listFallback pool =
     (case listArray pool of
        Some arr \<Rightarrow> arr
      | None \<Rightarrow> toList (case listText pool of Some t \<Rightarrow> t | None \<Rightarrow> []))"

definition getCandidates :: "CandidatePool \<Rightarrow> string list" where
  "getCandidates pool =
     (let base = (case selections pool of
                    Some sel \<Rightarrow> if length sel > 0 then sel else listFallback pool
                  | None \<Rightarrow> listFallback pool)
      in normalizeUniqueCaseInsensitive base)"

section \<open>32-bit integer operators of JavaScript\<close>

text \<open>
  The bitwise operators and \<open>Math.imul\<close> convert their operands to 32 bits
  (\<open>ToInt32\<close>, \<open>ToUint32\<close>: the value modulo \<open>2^32\<close>) and give a signed result;
  \<open>>>>\<close> gives an unsigned one.
\<close>

definition js_xor :: "int \<Rightarrow> int \<Rightarrow> int" where
  "js_xor a b = sint ((word_of_int a :: 32 word) XOR word_of_int b)"

definition js_or :: "int \<Rightarrow> int \<Rightarrow> int" where
  "js_or a b = sint ((word_of_int a :: 32 word) OR word_of_int b)"

definition js_ushr :: "int \<Rightarrow> nat \<Rightarrow> int" where
  "js_ushr a n = uint (drop_bit (n mod 32) (word_of_int a :: 32 word))"

definition imul :: "int \<Rightarrow> int \<Rightarrow> int" where
  "imul a b = sint ((word_of_int a :: 32 word) * word_of_int b)"

section \<open>\<open>src/utils/randomPicker.ts\<close>: \<open>hash32\<close>\<close>

definition hash32 :: "string \<Rightarrow> int" where
  "hash32 str =
     js_ushr (fold (\<lambda>c h. imul (js_xor h (of_char c)) 16777619) str (js_ushr 2166136261 0)) 0"

section \<open>\<open>src/utils/random.ts\<close>: \<open>mulberry32\<close>\<close>

text \<open>
  \<open>mulberry32(seed)\<close> returns a closure over the variable \<open>t\<close>, initially
  \<open>seed >>> 0\<close>.  The closure is modelled by the value of \<open>t\<close>; a call returns the
  draw and the new \<open>t\<close>.  The source adds the increment to \<open>t\<close> as a number and
  does not wrap \<open>t\<close> itself.  The final division by \<open>2^32\<close> of a 32-bit value is
  exact.
\<close>

definition mulberry32 :: "int \<Rightarrow> int" where
  "mulberry32 seed = js_ushr seed 0"

definition mulberry32_call :: "int \<Rightarrow> rat \<times> int" where
  "mulberry32_call t0 =
     (let t = js_add t0 0x6D2B79F5;
          r = imul (js_xor t (js_ushr t 15)) (js_or 1 t);
          r = js_xor r (js_add r (imul (js_xor r (js_ushr r 7)) (js_or 61 r)))
      in (of_int (js_ushr (js_xor r (js_ushr r 14)) 0) / 4294967296, t))"

text \<open>
  A generator is either the host's \<open>Math.random\<close> or a mulberry32 closure.  The
  values that \<open>Math.random\<close> returns come from outside the program: \<open>env k\<close> is the
  value returned to call number \<open>k\<close> made through the generator.
\<close>

datatype rng = MathRandom | Mulberry32 int

type_synonym entropy = "nat \<Rightarrow> rat"

fun rng_call :: "entropy \<Rightarrow> nat \<Rightarrow> rng \<Rightarrow> rat \<times> rng" where
  "rng_call env k MathRandom = (env k, MathRandom)"
| "rng_call env k (Mulberry32 t) = (let (u, t') = mulberry32_call t in (u, Mulberry32 t'))"


section \<open>\<open>src/utils/randomPicker.ts\<close>: sampling\<close>

text \<open>
  \<open>Number(seedBase) || 0\<close> is \<open>seedBase\<close> on whole numbers.  The sum
  \<open>seedBase + batchIndex + hash32(sectionId)\<close> is two additions of doubles, from the
  left.
\<close>

definition makeSectionRng :: "int \<Rightarrow> nat \<Rightarrow> string \<Rightarrow> rng" where
  "makeSectionRng seedBase batchIndex sectionId =
     (if seedBase = -1 then MathRandom
      else let s = js_add (js_add (if seedBase \<noteq> 0 then seedBase else 0) (int batchIndex))
                     (hash32 sectionId)
           in Mulberry32 (mulberry32 s))"

text \<open>
  \<open>pickOneValue\<close> returns a string, or \<open>undefined\<close> (\<open>None\<close>) if it reads outside
  the candidates array.
\<close>

definition pickOneValue :: "entropy \<Rightarrow> CandidatePool \<Rightarrow> int \<Rightarrow> nat \<Rightarrow> string \<Rightarrow> string option" where
  "pickOneValue env pool seedBase batchIndex sectionId =
     (let candidates = getCandidates pool
      in if length candidates = 0 then Some []
         else if isRandomized pool then
           (let rng = makeSectionRng seedBase batchIndex sectionId;
                idx = \<lfloor>toDouble (fst (rng_call env 0 rng) * of_nat (length candidates))\<rfloor>
            in js_nth candidates idx)
         else
           (let idx = int batchIndex mod int (length candidates)
            in js_nth candidates idx))"

text \<open>
  The Fisher-Yates loop of \<open>makeBalancedPlan\<close>, for \<open>i\<close> from \<open>length - 1\<close> down to 1;
  \<open>k\<close> counts the draws made so far.  The index \<open>j\<close> lies in \<open>0..i\<close> whenever the
  draw is a double in \<open>[0, 1)\<close>.  \<open>Array(batchSize)\<close> is modelled for batch sizes up to the
  largest array length, \<open>2^32 - 1\<close>.
\<close>

fun shuffle :: "entropy \<Rightarrow> nat \<Rightarrow> rng \<Rightarrow> nat \<Rightarrow> string list \<Rightarrow> string list" where
  "shuffle env k g 0 order = order"
| "shuffle env k g (Suc i) order =
     (let (u, g') = rng_call env k g;
          j = nat \<lfloor>toDouble (u * of_nat (Suc i + 1))\<rfloor>;
          order' = order[Suc i := order ! j, j := order ! Suc i]
      in shuffle env (Suc k) g' i order')"

definition makeBalancedPlan ::
    "entropy \<Rightarrow> CandidatePool \<Rightarrow> int \<Rightarrow> string \<Rightarrow> nat \<Rightarrow> string list" where
  "makeBalancedPlan env pool seedBase sectionId batchSize =
     (let candidates = getCandidates pool
      in if length candidates = 0 then replicate batchSize []
         else if length candidates = 1 then replicate batchSize (candidates ! 0)
         else
           (let order = candidates;
                order = (if isRandomized pool then
                           (let rng = (if seedBase = -1 then MathRandom
                                       else Mulberry32 (mulberry32
                                              (js_add (if seedBase \<noteq> 0 then seedBase else 0)
                                                 (hash32 sectionId))))
                            in shuffle env 0 rng (length order - 1) order)
                         else order)
            in map (\<lambda>b. order ! (b mod length order)) [0..<batchSize]))"

section \<open>The sampler as the specification words it\<close>


text \<open>
  mulberry32 on a 32-bit state: every call advances the state by the odd increment
  \<open>0x6D2B79F5\<close>, mixes the new state in two xorshift-multiply rounds, and returns the
  32-bit result divided by \<open>2^32\<close>.
\<close>

definition mulberry32_output :: "32 word \<Rightarrow> 32 word" where
  "mulberry32_output t =
     (let r = (t XOR drop_bit 15 t) * (1 OR t);
          r = r XOR (r + (r XOR drop_bit 7 r) * (61 OR r))
      in r XOR drop_bit 14 r)"


text \<open>
  Deduplicating a list case-insensitively in order: the first entry of each lowercase
  form is kept, in its own casing, and later entries of that form are dropped.
\<close>

fun dedupCaseInsensitive :: "string list \<Rightarrow> string list" where
  "dedupCaseInsensitive [] = []"
| "dedupCaseInsensitive (x # xs) =
     x # dedupCaseInsensitive (filter (\<lambda>y. toLowerCase y \<noteq> toLowerCase x) xs)"


section \<open>\<open>src/components/BoxEditor.tsx\<close>: reconciling the selections\<close>

text \<open>
  The effect of \<open>BoxEditor\<close> that runs whenever the list text or the selections
  change.  \<open>value\<close> is the section's list text, \<open>selected\<close> its selections; the
  result is the value of the selections after the effect.
\<close>

definition BoxEditor_normalizeSelected :: "string \<Rightarrow> string list \<Rightarrow> string list" where
  "BoxEditor_normalizeSelected value selected =
     (let canonical = set (map toLowerCase (toList value));
          normalizedSelected = filter (\<lambda>s. toLowerCase (trim s) \<in> canonical) selected
      in if length normalizedSelected \<noteq> length selected then normalizedSelected else selected)"


section \<open>\<open>src/PromptArchitect.tsx\<close>: building the payloads\<close>

text \<open>
  A payload is a JavaScript object from section titles to values.  It is modelled as
  the list of its own properties in the order in which the object lists them (the
  order \<open>JSON.stringify\<close> prints): first the keys that are array indices, ascending,
  then the other keys in insertion order.  Assigning to a key that is present
  replaces the value in place; assigning a string to \<open>__proto__\<close> adds no property.
\<close>

record SectionData =
  sec_id :: string
  sec_title :: string
  sec_list :: string
  sec_selections :: "string list"
  sec_isRandomized :: bool

record Controls =
  seed :: int
  batch :: int
  concurrency :: int
  model :: string

text \<open>
  A thrown \<open>Error\<close>, by its message; \<open>HttpError status txt\<close> is the error whose
  message is \<open>HTTP ${status} ${txt}\<close>.
\<close>

datatype js_error = Error string | HttpError nat string

text \<open>
  An array index is a key that is the decimal form, without leading zeros, of a
  whole number below \<open>2^32 - 1\<close>.
\<close>

definition isDigit :: "char \<Rightarrow> bool" where
  "isDigit c = (48 \<le> (of_char c :: nat) \<and> (of_char c :: nat) \<le> 57)"

definition decimalValue :: "string \<Rightarrow> int" where
  "decimalValue k = fold (\<lambda>c n. 10 * n + (of_char c - 48)) k 0"

definition arrayIndex :: "string \<Rightarrow> int option" where
  "arrayIndex k =
     (if k \<noteq> [] \<and> list_all isDigit k \<and> (k = ''0'' \<or> hd k \<noteq> CHR ''0'')
         \<and> decimalValue k < 2 ^ 32 - 1
      then Some (decimalValue k) else None)"

fun obj_replace :: "string \<Rightarrow> string \<Rightarrow> (string \<times> string) list \<Rightarrow> (string \<times> string) list" where
  "obj_replace k v [] = []"
| "obj_replace k v ((k', v') # kvs) =
     (if k' = k then (k, v) # kvs else (k', v') # obj_replace k v kvs)"

fun obj_insert_index ::
    "int \<Rightarrow> string \<Rightarrow> string \<Rightarrow> (string \<times> string) list \<Rightarrow> (string \<times> string) list" where
  "obj_insert_index n k v [] = [(k, v)]"
| "obj_insert_index n k v ((k', v') # kvs) =
     (case arrayIndex k' of
        Some n' \<Rightarrow> if n' < n then (k', v') # obj_insert_index n k v kvs
                   else (k, v) # (k', v') # kvs
      | None \<Rightarrow> (k, v) # (k', v') # kvs)"

definition obj_set :: "string \<Rightarrow> string \<Rightarrow> (string \<times> string) list \<Rightarrow> (string \<times> string) list" where
  "obj_set k v obj =
     (if k = ''__proto__'' then obj
      else if k \<in> set (map fst obj) then obj_replace k v obj
      else (case arrayIndex k of
              Some n \<Rightarrow> obj_insert_index n k v obj
            | None \<Rightarrow> obj @ [(k, v)]))"

text \<open>
  The body of the \<open>forEach\<close> in \<open>buildOne\<close>, for one section.  \<open>val?.trim()\<close> of
  \<open>undefined\<close> is \<open>undefined\<close>, which adds nothing to the payload.
\<close>

definition buildOne_section ::
    "entropy \<Rightarrow> nat \<Rightarrow> int \<Rightarrow> SectionData \<Rightarrow> (string \<times> string) list \<Rightarrow> (string \<times> string) list" where
  "buildOne_section env batchIndex seedBase section payload =
     (if trim (sec_title section) = [] then payload
      else let pool = \<lparr>label = sec_title section, listText = Some (sec_list section),
                        listArray = None, selections = Some (sec_selections section),
                        isRandomized = sec_isRandomized section\<rparr>;
               val = pickOneValue env pool seedBase batchIndex (sec_id section)
           in (case val of
                 None \<Rightarrow> payload
               | Some v \<Rightarrow> if trim v \<noteq> [] then obj_set (sec_title section) (trim v) payload
                           else payload))"

text \<open>
  \<open>env j\<close> gives the values that \<open>Math.random\<close> returns while section number
  \<open>j\<close> is drawn.
\<close>

fun buildOne_loop ::
    "(nat \<Rightarrow> entropy) \<Rightarrow> nat \<Rightarrow> int \<Rightarrow> nat \<Rightarrow> SectionData list \<Rightarrow> (string \<times> string) list
       \<Rightarrow> (string \<times> string) list" where
  "buildOne_loop env batchIndex seedBase j [] payload = payload"
| "buildOne_loop env batchIndex seedBase j (section # rest) payload =
     buildOne_loop env batchIndex seedBase (Suc j) rest
       (buildOne_section (env j) batchIndex seedBase section payload)"

definition buildOne ::
    "(nat \<Rightarrow> entropy) \<Rightarrow> SectionData list \<Rightarrow> nat \<Rightarrow> int \<Rightarrow> (string \<times> string) list" where
  "buildOne env sections batchIndex seedBase = buildOne_loop env batchIndex seedBase 0 sections []"

text \<open>
  \<open>onRun\<close>, from the API key check to the end of the loop that builds the payloads
  (lines 414 to 442): the result is the error thrown, or the payloads handed to
  \<open>callLLM\<close>.  \<open>env i\<close> gives the random values for batch item \<open>i\<close>.
\<close>

definition onRun_payloads ::
    "(nat \<Rightarrow> nat \<Rightarrow> entropy) \<Rightarrow> string \<Rightarrow> Controls \<Rightarrow> SectionData list
       \<Rightarrow> js_error + (string \<times> string) list list" where
  "onRun_payloads env apiKey controls sections =
     (if apiKey = [] then Inl (Error ''Enter your OpenAI API key to generate prompts.'')
      else let s = seed controls;
               batchSize = max 1 (if batch controls \<noteq> 0 then batch controls else 1)
           in Inr (map (\<lambda>i. buildOne (env i) sections i s) [0..<nat batchSize]))"


section \<open>\<open>useOpenAI\<close>: \<open>fetchWithRetry\<close> and \<open>callOpenAI\<close>\<close>

text \<open>
  The hook \<open>useOpenAI\<close>, imported from \<open>hooks/useAPI\<close>; its text is the second
  part of \<open>src/hooks/useLocalStorage.ts\<close>.
\<close>

text \<open>
  What one call of \<open>fetch\<close> does: it resolves with a response (status and body
  text), or the 30 second timer aborts it (\<open>AbortError\<close>), or it rejects with another
  error.  \<open>net k\<close> is what attempt number \<open>k\<close> of a job meets.
\<close>

datatype fetch_outcome = Response nat string | AbortError | Rejection string

type_synonym response = "nat \<times> string"

definition res_ok :: "nat \<Rightarrow> bool" where
  "res_ok status = (200 \<le> status \<and> status \<le> 299)"

text \<open>
  The \<open>try\<close> block of one iteration either returns the response from
  \<open>fetchWithRetry\<close>, or completes having assigned \<open>lastErr\<close>, or throws.
\<close>

datatype thrown = Abort | Thrown js_error

datatype try_result = Returns response | Assigns js_error | Throws thrown

definition try_block :: "fetch_outcome \<Rightarrow> try_result" where
  "try_block outcome =
     (case outcome of
        Response status txt \<Rightarrow>
          if res_ok status then Returns (status, txt)
          else if status = 429 \<or> (500 \<le> status \<and> status \<le> 599)
               then Assigns (HttpError status txt)
               else Throws (Thrown (HttpError status txt))
      | AbortError \<Rightarrow> Throws Abort
      | Rejection msg \<Rightarrow> Throws (Thrown (Error msg)))"

text \<open>The \<open>catch\<close> clause around it: the new value of \<open>lastErr\<close>.\<close>

definition catch_clause :: "thrown \<Rightarrow> js_error" where
  "catch_clause e = (case e of Abort \<Rightarrow> Error ''Request timeout'' | Thrown err \<Rightarrow> err)"

record fetch_run =
  outcome :: "js_error + response"
  fetches :: nat
  delays :: "int list"

text \<open>
  The \<open>while\<close> loop.  \<open>env k\<close> is the value of \<open>Math.random()\<close> for the jitter
  after attempt \<open>k\<close>; \<open>slept\<close> collects the delays slept so far.
\<close>

function fetchWithRetry_loop ::
    "entropy \<Rightarrow> (nat \<Rightarrow> fetch_outcome) \<Rightarrow> int \<Rightarrow> nat \<Rightarrow> nat \<Rightarrow> js_error option \<Rightarrow> int list
       \<Rightarrow> fetch_run" where
  "fetchWithRetry_loop env net baseDelay tries attempt lastErr slept =
     (if attempt < tries then
        (case (case try_block (net attempt) of
                 Returns res \<Rightarrow> Inr res
               | Assigns err \<Rightarrow> Inl err
               | Throws e \<Rightarrow> Inl (catch_clause e)) of
           Inr res \<Rightarrow> \<lparr>outcome = Inr res, fetches = attempt + 1, delays = slept\<rparr>
         | Inl err \<Rightarrow>
             (let attempt' = attempt + 1;
                  slept' = (if attempt' < tries
                            then slept @ [js_add (js_mul baseDelay (2 ^ (attempt' - 1)))
                                            \<lfloor>toDouble (env attempt * 200)\<rfloor>]
                            else slept)
              in fetchWithRetry_loop env net baseDelay tries attempt' (Some err) slept'))
      else \<lparr>outcome = Inl (case lastErr of Some err \<Rightarrow> err | None \<Rightarrow> Error ''Request failed''),
            fetches = attempt, delays = slept\<rparr>)"
  by pat_completeness auto
termination
  by (relation "measure (\<lambda>(env, net, baseDelay, tries, attempt, lastErr, slept). tries - attempt)")
     auto

declare fetchWithRetry_loop.simps [simp del]

definition fetchWithRetry ::
    "entropy \<Rightarrow> (nat \<Rightarrow> fetch_outcome) \<Rightarrow> int \<Rightarrow> nat \<Rightarrow> fetch_run" where
  "fetchWithRetry env net baseDelay tries = fetchWithRetry_loop env net baseDelay tries 0 None []"

text \<open>
  \<open>response.json()\<close> followed by \<open>data?.choices?.[0]?.message?.content\<close>: the body
  is not JSON (\<open>json()\<close> rejects), or it has no string at that path, or it has one.
  The JSON parser is a parameter.
\<close>

datatype json_content = NotJson | NoContent | Content string

text \<open>
  \<open>callOpenAI\<close> with the default options (three tries, base delay 500): the
  function passed to \<open>execute\<close>, then \<open>execute\<close>, which returns the result or, when
  the function throws, \<open>null\<close> (\<open>None\<close>).  The loading and error state that
  \<open>execute\<close> keeps for the user interface is left out.
\<close>

definition apiCall ::
    "entropy \<Rightarrow> (nat \<Rightarrow> fetch_outcome) \<Rightarrow> (string \<Rightarrow> json_content) \<Rightarrow> js_error + string" where
  "apiCall env net parse =
     (case outcome (fetchWithRetry env net 500 3) of
        Inl err \<Rightarrow> Inl err
      | Inr (status, body) \<Rightarrow>
          (case parse body of
             NotJson \<Rightarrow> Inl (Error ''Unexpected token'')
           | NoContent \<Rightarrow> Inr []
           | Content c \<Rightarrow> Inr (trim c)))"

definition execute :: "js_error + 'a \<Rightarrow> 'a option" where
  "execute r = (case r of Inl err \<Rightarrow> None | Inr v \<Rightarrow> Some v)"

definition callOpenAI ::
    "entropy \<Rightarrow> (nat \<Rightarrow> fetch_outcome) \<Rightarrow> (string \<Rightarrow> json_content) \<Rightarrow> string option" where
  "callOpenAI env net parse = execute (apiCall env net parse)"

section \<open>\<open>src/PromptArchitect.tsx\<close>: \<open>callLLM\<close>\<close>

record Progress =
  p_total :: nat
  p_done :: nat
  p_ok :: nat
  p_fail :: nat

text \<open>
  How the promise returned by \<open>openAI.callOpenAI\<close> settles: fulfilled with a
  string or \<open>null\<close>, or rejected.
\<close>

datatype settled = Fulfilled "string option" | Rejected js_error

text \<open>
  A worker is suspended at its \<open>await\<close> with the index it claimed, or has left its
  loop.  JavaScript runs each worker without interruption from one \<open>await\<close> to the
  next, so a worker is only ever observed in one of these two states.
\<close>

datatype worker = Awaiting nat | Finished

record Dispatch =
  index :: nat
  results :: "string list"
  progress :: Progress
  workers :: "worker list"

text \<open>
  The head of the worker's \<open>while\<close> loop, up to the \<open>await\<close>: claim the next index,
  or leave the loop.
\<close>

definition worker_loop :: "nat \<Rightarrow> Dispatch \<Rightarrow> worker \<times> Dispatch" where
  "worker_loop qlen st =
     (if index st < qlen then (Awaiting (index st), st\<lparr>index := index st + 1\<rparr>)
      else (Finished, st))"

text \<open>The rest of the loop body, after the \<open>await\<close> for index \<open>myIndex\<close> has settled.\<close>

definition worker_settle :: "settled \<Rightarrow> nat \<Rightarrow> Dispatch \<Rightarrow> Dispatch" where
  "worker_settle r myIndex st =
     (case r of
        Fulfilled result \<Rightarrow>
          st\<lparr>results := (results st)[myIndex := (case result of Some s \<Rightarrow> s | None \<Rightarrow> [])],
             progress := (progress st)\<lparr>p_done := p_done (progress st) + 1,
                                       p_ok := p_ok (progress st) + 1\<rparr>\<rparr>
      | Rejected e \<Rightarrow>
          st\<lparr>results := (results st)[myIndex := []],
             progress := (progress st)\<lparr>p_done := p_done (progress st) + 1,
                                       p_fail := p_fail (progress st) + 1\<rparr>\<rparr>)"

text \<open>\<open>worker()\<close> is called: the new worker runs to its first \<open>await\<close>.\<close>

definition worker_start :: "nat \<Rightarrow> Dispatch \<Rightarrow> Dispatch" where
  "worker_start qlen st =
     (let (w, st') = worker_loop qlen st in st'\<lparr>workers := workers st' @ [w]\<rparr>)"

text \<open>
  The call that worker number \<open>w\<close> awaits settles: the worker records the outcome
  and runs to its next \<open>await\<close>.  \<open>call i\<close> is how the call for queue index \<open>i\<close>
  settles.
\<close>

definition worker_resume :: "(nat \<Rightarrow> settled) \<Rightarrow> nat \<Rightarrow> nat \<Rightarrow> Dispatch \<Rightarrow> Dispatch" where
  "worker_resume call qlen w st =
     (if w < length (workers st) then
        (case workers st ! w of
           Awaiting myIndex \<Rightarrow>
             (let (w', st') = worker_loop qlen (worker_settle (call myIndex) myIndex st)
              in st'\<lparr>workers := (workers st')[w := w']\<rparr>)
         | Finished \<Rightarrow> st)
      else st)"

text \<open>The queue indices whose calls settle along a schedule, in that order.\<close>

fun settled_jobs :: "(nat \<Rightarrow> settled) \<Rightarrow> nat \<Rightarrow> nat list \<Rightarrow> Dispatch \<Rightarrow> nat list" where
  "settled_jobs call qlen [] st = []"
| "settled_jobs call qlen (w # sched) st =
     (if w < length (workers st) then
        (case workers st ! w of Awaiting myIndex \<Rightarrow> [myIndex] | Finished \<Rightarrow> [])
      else [])
     @ settled_jobs call qlen sched (worker_resume call qlen w st)"

text \<open>\<open>Math.max(1, Math.min(Number(maxParallel) || 1, 10))\<close>\<close>

definition clampParallel :: "int \<Rightarrow> nat" where
  "clampParallel maxParallel = nat (max 1 (min (if maxParallel \<noteq> 0 then maxParallel else 1) 10))"

text \<open>
  The state of \<open>callLLM\<close> once all workers have been started, and after the calls
  awaited by the workers in \<open>sched\<close> have settled, in that order.  The schedule is
  the order in which the workers' calls complete; an entry that names no suspended
  worker has no effect.
\<close>

definition callLLM_started :: "nat \<Rightarrow> int \<Rightarrow> Dispatch" where
  "callLLM_started qlen maxParallel =
     (let st = \<lparr>index = 0, results = replicate qlen [],
                 progress = \<lparr>p_total = qlen, p_done = 0, p_ok = 0, p_fail = 0\<rparr>,
                 workers = []\<rparr>
      in (worker_start qlen ^^ clampParallel maxParallel) st)"

definition callLLM_run :: "(nat \<Rightarrow> settled) \<Rightarrow> nat \<Rightarrow> int \<Rightarrow> nat list \<Rightarrow> Dispatch" where
  "callLLM_run call qlen maxParallel sched =
     fold (worker_resume call qlen) sched (callLLM_started qlen maxParallel)"

text \<open>
  The promise returned by \<open>callLLM\<close>: rejected when there is no API key, fulfilled
  with \<open>results\<close> once every worker has left its loop, pending until then.
\<close>

datatype 'a promise = Pending | Resolves 'a | Rejects js_error

definition callLLM ::
    "string \<Rightarrow> ('p \<Rightarrow> 'm) \<Rightarrow> (nat \<Rightarrow> 'm \<Rightarrow> settled) \<Rightarrow> 'p list \<Rightarrow> int \<Rightarrow> nat list
       \<Rightarrow> string list promise" where
  "callLLM apiKey buildLLMMessages callOpenAI_on payloads maxParallel sched =
     (if apiKey = [] then
        Rejects (Error ''No API key set. Enter your OpenAI API key to use Send to GPT.'')
      else let queue = map buildLLMMessages payloads;
               st = callLLM_run (\<lambda>i. callOpenAI_on i (queue ! i)) (length queue) maxParallel sched
           in if list_all (\<lambda>w. w = Finished) (workers st) then Resolves (results st)
              else Pending)"


text \<open>What a worker writes into \<open>results\<close> for a settled call.\<close>

fun output_of :: "settled \<Rightarrow> string" where
  "output_of (Fulfilled (Some s)) = s"
| "output_of (Fulfilled None) = []"
| "output_of (Rejected e) = []"

text \<open>The queue indices that the workers are awaiting, as a multiset.\<close>

fun job_of :: "worker \<Rightarrow> nat multiset" where
  "job_of (Awaiting i) = {#i#}"
| "job_of Finished = {#}"

fun inflight :: "worker list \<Rightarrow> nat multiset" where
  "inflight [] = {#}"
| "inflight (w # ws) = job_of w + inflight ws"

text \<open>
  The invariant of the dispatch, for the list \<open>tr\<close> of the queue indices settled so
  far: every index below the cursor is settled or awaited, exactly once; the settled
  ones have their output in place; \<open>done\<close> counts them.
\<close>

definition dispatch_inv :: "(nat \<Rightarrow> settled) \<Rightarrow> nat \<Rightarrow> nat list \<Rightarrow> Dispatch \<Rightarrow> bool" where
  "dispatch_inv call qlen tr st \<longleftrightarrow>
     index st \<le> qlen \<and> length (results st) = qlen
     \<and> mset tr + inflight (workers st) = mset [0..<index st]
     \<and> (\<forall>i \<in> set tr. results st ! i = output_of (call i))
     \<and> p_done (progress st) = length tr
     \<and> p_ok (progress st) + p_fail (progress st) = p_done (progress st)
     \<and> p_total (progress st) = qlen
     \<and> (Finished \<in> set (workers st) \<longrightarrow> index st = qlen)"

section \<open>Example inputs\<close>

definition pool_xyz :: CandidatePool where
  "pool_xyz = \<lparr>label = ''Lens'', listText = Some ''x,y,z'', listArray = None,
               selections = None, isRandomized = False\<rparr>"

definition pool_xyz_random :: CandidatePool where
  "pool_xyz_random = pool_xyz\<lparr>isRandomized := True\<rparr>"

definition pool_pinned :: CandidatePool where
  "pool_pinned = \<lparr>label = ''Lens'', listText = Some ''x,y,z'', listArray = None,
                  selections = Some [''y''], isRandomized = False\<rparr>"

definition pool_padded :: CandidatePool where
  "pool_padded = \<lparr>label = ''Lens'', listText = Some ''x,y,z'', listArray = None,
                  selections = Some ['' y'', ''''], isRandomized = False\<rparr>"

definition pool_stale :: CandidatePool where
  "pool_stale = \<lparr>label = ''Lens'', listText = Some ''x,y,z'', listArray = None,
                  selections = Some [''q'', ''Y''], isRandomized = False\<rparr>"

definition section_lens :: SectionData where
  "section_lens = \<lparr>sec_id = ''default-7'', sec_title = ''Lens'', sec_list = ''x,y,z'',
                    sec_selections = [], sec_isRandomized = False\<rparr>"

definition controls_zero_batch :: Controls where
  "controls_zero_batch = \<lparr>seed = 7, batch = 0, concurrency = 4, model = ''gpt-4o-mini''\<rparr>"

definition controls_negative_batch :: Controls where
  "controls_negative_batch = \<lparr>seed = 7, batch = -3, concurrency = 4, model = ''gpt-4o-mini''\<rparr>"

text \<open>
  A stub for the API: the call for queue index 1 is rejected, every other call is
  fulfilled with its message followed by an exclamation mark.
\<close>

definition stub_call :: "nat \<Rightarrow> string \<Rightarrow> settled" where
  "stub_call i m = (if i = 1 then Rejected (Error ''HTTP 500'') else Fulfilled (Some (m @ ''!'')))"

definition three_payloads :: "string list" where
  "three_payloads = [''p0'', ''p1'', ''p2'']"

text \<open>The double printed as 0.6666666666666666.\<close>

definition near_two_thirds :: rat where
  "near_two_thirds = 6004799503160661 / 2 ^ 53"

section \<open>Properties of rounding to a double\<close>

lemma powi_pos: "0 < (2 :: rat) powi k"
  by (simp add: power_int_def)

lemma powi_mono: "a \<le> b \<Longrightarrow> (2 :: rat) powi a \<le> 2 powi b"
  by (rule power_int_increasing) simp_all

lemma powi_less_imp: "(2 :: rat) powi a < 2 powi b \<Longrightarrow> a < b"
  using powi_mono [of b a] by (cases "a < b") auto

lemma binade_le:
  assumes "0 < x"
  shows "2 powi (binade x) \<le> x"
proof -
  obtain a b where q: "quotient_of x = (a, b)" by (cases "quotient_of x")
  then have x: "x = of_int a / of_int b" and b: "0 < b"
    by (simp_all add: quotient_of_div quotient_of_denom_pos)
  with assms have a: "0 < a" by (simp add: zero_less_divide_iff)
  let ?k = "bitlen a - bitlen b"
  show ?thesis
  proof (cases "2 powi ?k \<le> x")
    case True
    then show ?thesis by (simp add: binade_def q)
  next
    case False
    have la: "(2 :: rat) powi (bitlen a - 1) \<le> of_int a"
    proof -
      have "0 \<le> bitlen a - 1" using a bitlen_nonneg [of a] bitlen_eq_zero_iff [of a] by linarith
      moreover have "(2 :: int) ^ nat (bitlen a - 1) \<le> a" using bitlen_bounds [OF a] by simp
      then have "(of_int ((2 :: int) ^ nat (bitlen a - 1)) :: rat) \<le> of_int a"
        by (simp only: of_int_le_iff)
      ultimately show ?thesis by (simp add: power_int_def)
    qed
    have lb: "of_int b < (2 :: rat) powi (bitlen b)"
    proof -
      have "b < (2 :: int) ^ nat (bitlen b)" using bitlen_bounds [OF b] by simp
      then have "(of_int b :: rat) < of_int ((2 :: int) ^ nat (bitlen b))"
        by (simp only: of_int_less_iff)
      then show ?thesis using bitlen_nonneg [of b] by (simp add: power_int_def)
    qed
    have "(2 :: rat) powi (?k - 1) = 2 powi (bitlen a - 1) / 2 powi (bitlen b)"
      using power_int_diff [of "2 :: rat" "bitlen a - 1" "bitlen b"] by (simp add: algebra_simps)
    also have "\<dots> \<le> of_int a / 2 powi (bitlen b)"
      using la powi_pos [of "bitlen b"] by (simp add: divide_right_mono)
    also have "\<dots> \<le> of_int a / of_int b"
      using lb a b by (intro divide_left_mono) (simp_all add: powi_pos)
    finally have "(2 :: rat) powi (?k - 1) \<le> x" by (simp only: x)
    moreover have "binade x = ?k - 1" using False by (simp add: binade_def q)
    ultimately show ?thesis by simp
  qed
qed

lemma roundHalfEven_of_int: "roundHalfEven (of_int n) = n"
  by (simp add: roundHalfEven_def)

lemma roundHalfEven_nonneg: "0 \<le> y \<Longrightarrow> 0 \<le> roundHalfEven y"
  by (auto simp: roundHalfEven_def Let_def)

lemma roundHalfEven_below:
  assumes "y < of_int M - 1 / 2"
  shows "roundHalfEven y \<le> M - 1"
proof -
  have f: "of_int \<lfloor>y\<rfloor> \<le> y" by simp
  with assms have "(of_int \<lfloor>y\<rfloor> :: rat) < of_int M" by linarith
  then have lt: "\<lfloor>y\<rfloor> < M" by (simp only: of_int_less_iff)
  show ?thesis
  proof (cases "\<lfloor>y\<rfloor> = M - 1")
    case True
    then have "y - of_int \<lfloor>y\<rfloor> < 1 / 2" using assms by simp
    then show ?thesis using True by (simp add: roundHalfEven_def Let_def)
  next
    case False
    with lt have "\<lfloor>y\<rfloor> + 1 \<le> M - 1" by linarith
    then show ?thesis by (auto simp: roundHalfEven_def Let_def)
  qed
qed


lemma powi_nat: "0 \<le> k \<Longrightarrow> (2 :: rat) powi k = of_int (2 ^ nat k)"
  by (simp add: power_int_def)

lemma powi_neg_inverse: "k \<le> 0 \<Longrightarrow> (2 :: rat) powi k = 1 / of_int (2 ^ nat (- k))"
  by (cases "k = 0") (simp_all add: power_int_def field_simps)

text \<open>Rounding leaves a multiple of the quantum alone.\<close>

lemma toDouble_multiple:
  assumes "x \<noteq> 0" and "\<bar>x\<bar> = of_int n * 2 powi (max (binade \<bar>x\<bar>) (- 1022) - 52)"
  shows "toDouble x = x"
proof -
  let ?q = "(2 :: rat) powi (max (binade \<bar>x\<bar>) (- 1022) - 52)"
  have "\<bar>x\<bar> / ?q = of_int n" using assms(2) powi_pos [of "max (binade \<bar>x\<bar>) (- 1022) - 52"]
    by (simp add: field_simps)
  then have "toDouble x = sgn x * (of_int n * ?q)"
    using assms(1) by (simp add: toDouble_def Let_def roundHalfEven_of_int)
  also have "\<dots> = sgn x * \<bar>x\<bar>"
    by (rule arg_cong [where f = "\<lambda>z. sgn x * z", OF assms(2) [symmetric]])
  also have "\<dots> = x" by (simp add: sgn_mult_abs)
  finally show ?thesis .
qed

lemma toDouble_of_int:
  assumes "\<bar>n\<bar> \<le> 2 ^ 53"
  shows "toDouble (of_int n) = of_int n"
proof (cases "n = 0")
  case True
  then show ?thesis by (simp add: toDouble_def)
next
  case False
  let ?x = "of_int n :: rat"
  let ?k = "binade \<bar>?x\<bar>"
  let ?e = "max ?k (- 1022) - 52"
  have pos: "0 < \<bar>?x\<bar>" using False by simp
  have one: "1 \<le> \<bar>?x\<bar>"
  proof -
    have "1 \<le> \<bar>n\<bar>" using False by simp
    then have "(of_int 1 :: rat) \<le> of_int \<bar>n\<bar>" by (simp only: of_int_le_iff)
    then show ?thesis by simp
  qed
  have up: "\<bar>?x\<bar> \<le> 2 powi 53"
  proof -
    have "(of_int \<bar>n\<bar> :: rat) \<le> of_int (2 ^ 53)" using assms by (simp only: of_int_le_iff)
    then show ?thesis by (simp add: power_int_def)
  qed
  from binade_le [OF pos] up have "(2 :: rat) powi ?k \<le> 2 powi 53" by linarith
  then have k: "?k \<le> 53" using powi_mono [of 54 ?k] by (cases "?k \<le> 53") (auto simp: power_int_def)
  show ?thesis
  proof (cases "?e \<le> 0")
    case True
    have "(2 :: rat) powi ?e = 1 / of_int (2 ^ nat (- ?e))" using True by (rule powi_neg_inverse)
    then have "\<bar>?x\<bar> = of_int (\<bar>n\<bar> * 2 ^ nat (- ?e)) * 2 powi ?e" by simp
    then show ?thesis using toDouble_multiple [of ?x "\<bar>n\<bar> * 2 ^ nat (- ?e)"] False by simp
  next
    case False
    with k have e: "?e = 1" and k53: "?k = 53" by (simp_all add: max_def split: if_splits)
    from binade_le [OF pos] k53 have "(2 :: rat) powi 53 \<le> \<bar>?x\<bar>" by simp
    with up have "\<bar>?x\<bar> = 2 powi 53" by linarith
    then have "\<bar>?x\<bar> = of_int (2 ^ 52) * 2 powi ?e" unfolding e by (simp add: power_int_def)
    then show ?thesis using toDouble_multiple [of ?x "2 ^ 52"] \<open>n \<noteq> 0\<close> by simp
  qed
qed

lemma powi_53: "(2 :: rat) powi 53 = 2 ^ 53"
  by (simp add: power_int_def)

lemma powi_shift: "(2 :: rat) powi e * 2 ^ 53 = 2 powi (e + 53)"
  using power_int_add [of "2 :: rat" e 53] by (simp only: powi_53) simp

lemma int_scaled_below:
  assumes "(of_int z :: rat) < 2 ^ 53"
  shows "(of_int z :: rat) \<le> 2 ^ 53 - 1"
proof -
  have "(of_int z :: rat) < of_int (2 ^ 53)" using assms by simp
  then have "z < 2 ^ 53" by (simp only: of_int_less_iff)
  then have "z \<le> 2 ^ 53 - 1" by simp
  then have "(of_int z :: rat) \<le> of_int (2 ^ 53 - 1)" by (simp only: of_int_le_iff)
  then show ?thesis by simp
qed


lemma isDouble_below_one_a:
  fixes u :: rat
  assumes u: "u = of_int m * 2 powi e" and e: "- 53 \<le> e" and "u < 1"
  shows "u \<le> 1 - 1 / 2 ^ 53"
proof -
  have "(2 :: rat) powi (e + 53) = of_int (2 ^ nat (e + 53))" using e by (simp add: powi_nat)
  then have "u * 2 ^ 53 = of_int m * of_int (2 ^ nat (e + 53))"
    unfolding u using powi_shift [of e] by (simp only: mult.assoc)
  then have eq: "u * 2 ^ 53 = of_int (m * 2 ^ nat (e + 53))" by (simp only: of_int_mult)
  have "u * 2 ^ 53 < 1 * 2 ^ 53" using \<open>u < 1\<close> by (intro mult_strict_right_mono) simp_all
  then have "(of_int (m * 2 ^ nat (e + 53)) :: rat) < 2 ^ 53" unfolding eq [symmetric] by (simp only: mult_1)
  from int_scaled_below [OF this] have "u * 2 ^ 53 \<le> 2 ^ 53 - 1" unfolding eq [symmetric] .
  then have "u \<le> (2 ^ 53 - 1) / 2 ^ 53" by (simp only: pos_le_divide_eq zero_less_power zero_less_numeral)
  also have "\<dots> = 1 - 1 / 2 ^ 53" by (simp only: diff_divide_distrib) simp
  finally show ?thesis .
qed


lemma isDouble_below_one_b:
  fixes u :: rat
  assumes u: "u = of_int m * 2 powi e" and e: "e \<le> - 54" and m: "\<bar>m\<bar> < 2 ^ 53"
  shows "u \<le> 1 - 1 / 2 ^ 53"
proof -
  have pe: "(2 :: rat) powi e \<le> 2 powi (- 54)" using e by (rule powi_mono)
  have "m \<le> 2 ^ 53" using m by simp
  then have "(of_int m :: rat) \<le> of_int (2 ^ 53)" by (simp only: of_int_le_iff)
  then have pm: "(of_int m :: rat) \<le> 2 ^ 53" by simp
  have "u \<le> 2 ^ 53 * 2 powi e"
    unfolding u using pm powi_pos [of e] by (intro mult_right_mono) simp_all
  also have "\<dots> \<le> 2 ^ 53 * 2 powi (- 54)"
    using pe by (intro mult_left_mono) simp_all
  also have "\<dots> = 1 / 2" by (simp add: power_int_def power_divide)
  also have "\<dots> \<le> 1 - 1 / 2 ^ 53" by simp
  finally show ?thesis .
qed

text \<open>The largest double below 1 is \<open>1 - 2^-53\<close>.\<close>

lemma isDouble_below_one:
  assumes "isDouble u" and "u < 1"
  shows "u \<le> 1 - 1 / 2 ^ 53"
proof -
  from assms(1) obtain m e where u: "u = of_int m * 2 powi e" and m: "\<bar>m\<bar> < 2 ^ 53"
    unfolding isDouble_def by blast
  show ?thesis
  proof (cases "- 53 \<le> e")
    case True
    then show ?thesis using isDouble_below_one_a [OF u True assms(2)] by simp
  next
    case False
    then have "e \<le> - 54" by simp
    then show ?thesis using isDouble_below_one_b [OF u _ m] by simp
  qed
qed

text \<open>
  The product of a double below 1 and an array length, rounded to a double, stays
  below the length.
\<close>

lemma floor_product_range:
  assumes d: "isDouble u" and u0: "0 \<le> u" and u1: "u < 1" and n0: "0 < N" and n53: "N \<le> 2 ^ 53"
  shows "0 \<le> \<lfloor>toDouble (u * of_nat N)\<rfloor> \<and> \<lfloor>toDouble (u * of_nat N)\<rfloor> < int N"
proof (cases "u = 0")
  case True
  then show ?thesis using n0 by (simp add: toDouble_def)
next
  case False
  let ?x = "u * of_nat N :: rat"
  let ?k = "binade ?x"
  let ?e = "max ?k (- 1022) - 52"
  let ?q = "(2 :: rat) powi ?e"
  have Npos: "(0 :: rat) < of_nat N" using n0 by simp
  have xpos: "0 < ?x" using False u0 Npos by simp
  have xlt: "?x < of_nat N" using u1 Npos by simp
  have N53: "(of_nat N :: rat) \<le> 2 powi 53"
  proof -
    have "(of_nat N :: rat) \<le> of_nat (2 ^ 53)" using n53 by (simp only: of_nat_le_iff)
    then show ?thesis by (simp add: power_int_def)
  qed
  have kx: "2 powi ?k \<le> ?x" using binade_le [OF xpos] .
  then have "(2 :: rat) powi ?k < 2 powi 53" using xlt N53 by linarith
  then have k: "?k \<le> 52" using powi_less_imp [of ?k 53] by simp
  then have e: "?e \<le> 0" by simp
  have qpos: "0 < ?q" by (rule powi_pos)
  define M where "M = int N * 2 ^ nat (- ?e)"
  have q: "?q = 1 / of_int (2 ^ nat (- ?e))" using e by (rule powi_neg_inverse)
  have NM: "(of_nat N :: rat) = of_int M * ?q" unfolding M_def q by simp
  have le: "?x \<le> of_nat N - of_nat N / 2 ^ 53"
  proof -
    have "u * of_nat N \<le> (1 - 1 / 2 ^ 53) * of_nat N"
      using isDouble_below_one [OF d u1] Npos by (intro mult_right_mono) simp_all
    then show ?thesis by (simp add: algebra_simps)
  qed
  have half: "?q / 2 < of_nat N / 2 ^ 53"
  proof (cases "- 1022 \<le> ?k")
    case True
    then have "?q = 2 powi ?k / 2 ^ 52"
      using power_int_diff [of "2 :: rat" ?k 52] by (simp add: max_def)
    moreover have "(2 :: rat) powi ?k < of_nat N" using kx xlt by linarith
    ultimately show ?thesis by (simp add: field_simps)
  next
    case False
    then have "?q = 2 powi (- 1074)" by (simp add: max_def)
    also have "\<dots> < 1 / 2 ^ 52" by (simp add: power_int_def field_simps)
    finally have "?q < 1 / 2 ^ 52" .
    moreover have "(1 :: rat) \<le> of_nat N" using n0 by simp
    ultimately show ?thesis by (simp add: field_simps)
  qed
  have "?x < of_int M * ?q - ?q / 2" using le half NM by linarith
  then have "?x / ?q < of_int M - 1 / 2" using qpos by (simp add: field_simps)
  from roundHalfEven_below [OF this] have r: "roundHalfEven (?x / ?q) \<le> M - 1" .
  have r0: "0 \<le> roundHalfEven (?x / ?q)"
    using xpos qpos by (intro roundHalfEven_nonneg) simp
  have td: "toDouble ?x = of_int (roundHalfEven (?x / ?q)) * ?q"
    using xpos False n0 by (simp add: toDouble_def Let_def)
  have "(of_int (roundHalfEven (?x / ?q)) :: rat) \<le> of_int (M - 1)"
    using r by (simp only: of_int_le_iff)
  then have "toDouble ?x \<le> of_int (M - 1) * ?q" unfolding td using qpos by (simp add: mult_right_mono)
  also have "\<dots> = of_nat N - ?q" using NM by (simp add: algebra_simps)
  finally have "toDouble ?x \<le> of_nat N - ?q" .
  with qpos have "toDouble ?x < of_nat N" by linarith
  then have "toDouble ?x < of_int (int N)" by simp
  then have hi: "\<lfloor>toDouble ?x\<rfloor> < int N" by (simp only: floor_less_iff)
  have "0 \<le> toDouble ?x" unfolding td using r0 qpos by simp
  then have "0 \<le> \<lfloor>toDouble ?x\<rfloor>" by simp
  with hi show ?thesis by simp
qed

section \<open>Properties of the hash and the generator\<close>

lemma js_add_exact: "\<bar>a + b\<bar> \<le> 2 ^ 53 \<Longrightarrow> js_add a b = a + b"
proof -
  assume "\<bar>a + b\<bar> \<le> 2 ^ 53"
  from toDouble_of_int [OF this] have "toDouble (of_int a + of_int b) = of_int (a + b)" by simp
  then show ?thesis by (simp add: js_add_def)
qed

lemma isDoubleI:
  "u = of_int m * 2 powi e \<Longrightarrow> \<bar>m\<bar> < 2 ^ 53 \<Longrightarrow> - 1074 \<le> e \<Longrightarrow> isDouble u"
  unfolding isDouble_def by blast

lemma sint_abs_32: "\<bar>sint (w :: 32 word)\<bar> \<le> 2 ^ 31"
  using sint_ge [of w] sint_lt [of w] by simp

lemma js_add_sint: "js_add (sint (v :: 32 word)) (sint (w :: 32 word)) = sint v + sint w"
proof -
  have "\<bar>sint v + sint w\<bar> \<le> 2 ^ 53" using sint_abs_32 [of v] sint_abs_32 [of w] by simp
  then show ?thesis by (rule js_add_exact)
qed






text \<open>
  One call of the closure: the draw is the mixed 32-bit value of the new counter,
  over \<open>2^32\<close>.
\<close>

lemma mulberry32_call_word:
  "mulberry32_call t =
     (of_int (uint (mulberry32_output (word_of_int (js_add t 0x6D2B79F5)))) / 4294967296,
      js_add t 0x6D2B79F5)"
  by (simp add: mulberry32_call_def mulberry32_output_def Let_def js_xor_def js_or_def
      js_ushr_def imul_def js_add_sint)

lemma mulberry32_call_range:
  "0 \<le> fst (mulberry32_call t) \<and> fst (mulberry32_call t) < 1 \<and> isDouble (fst (mulberry32_call t))"
proof -
  let ?w = "mulberry32_output (word_of_int (js_add t 0x6D2B79F5))"
  have lt: "uint ?w < 2 ^ 32" using uint_lt2p [of ?w] by simp
  then have "uint ?w < 4294967296" by simp
  then have "(of_int (uint ?w) :: rat) < of_int 4294967296" by (simp only: of_int_less_iff)
  moreover have "0 \<le> (of_int (uint ?w) :: rat)" by (simp only: of_int_0_le_iff uint_ge_0)
  moreover have "isDouble (of_int (uint ?w) / 4294967296)"
  proof -
    have "(of_int (uint ?w) / 4294967296 :: rat) = of_int (uint ?w) * 2 powi (- 32)"
      by (simp add: power_int_def power_divide)
    moreover have "\<bar>uint ?w\<bar> < 2 ^ 53" using lt by simp
    ultimately show ?thesis by (intro isDoubleI [of _ "uint ?w" "- 32"]) simp_all
  qed
  ultimately show ?thesis by (simp add: mulberry32_call_word)
qed



















section \<open>Properties of the candidate resolver and the single draw\<close>

lemma rng_call_range:
  assumes "\<forall>k. isDouble (env k) \<and> 0 \<le> env k \<and> env k < 1"
  shows "isDouble (fst (rng_call env k g)) \<and> 0 \<le> fst (rng_call env k g)
       \<and> fst (rng_call env k g) < 1"
proof (cases g)
  case MathRandom
  then show ?thesis using assms by simp
next
  case (Mulberry32 t)
  then show ?thesis using mulberry32_call_range [of t] by (simp add: split_beta)
qed

lemma filterSeen_subset: "set (filterSeen seen xs) \<subseteq> set xs"
  by (induction seen xs rule: filterSeen.induct) auto

lemma normalize_nonempty: "[] \<notin> set (normalizeUniqueCaseInsensitive arr)"
  using filterSeen_subset [of "{}" "filter (\<lambda>s. s \<noteq> []) (map trim arr)"]
  by (auto simp: normalizeUniqueCaseInsensitive_def)

lemma getCandidates_nonempty: "[] \<notin> set (getCandidates pool)"
  by (simp add: getCandidates_def Let_def normalize_nonempty)

lemma js_nth_mod:
  "xs \<noteq> [] \<Longrightarrow> js_nth xs (int b mod int (length xs)) = Some (xs ! (b mod length xs))"
  by (simp add: js_nth_def zmod_int [symmetric] del: of_nat_mod)

lemma getCandidates_xyz: "getCandidates pool_xyz = [''x'', ''y'', ''z'']"
  by code_simp

lemma getCandidates_xyz_random: "getCandidates pool_xyz_random = [''x'', ''y'', ''z'']"
  by code_simp

text \<open>
  C4.  A pool whose randomize flag is off and whose resolved candidate list has
  \<open>N > 0\<close> elements yields \<open>candidates[b mod N]\<close> at batch index \<open>b\<close>; the
  result is the same for any two run seeds (and section ids, and random values of
  the host).  With three candidates the batch indices 0..4 yield candidates
  0, 1, 2, 0, 1.
\<close>

theorem pickOneValue_cycles:
  assumes "\<not> isRandomized pool" and "getCandidates pool \<noteq> []"
  shows "pickOneValue env pool seedBase b sid
           = Some (getCandidates pool ! (b mod length (getCandidates pool)))
       \<and> pickOneValue env pool seedBase b sid = pickOneValue env' pool seedBase' b sid'
       \<and> (length (getCandidates pool) = 3 \<longrightarrow>
            map (\<lambda>i. pickOneValue env pool seedBase i sid) [0, 1, 2, 3, 4]
              = map (\<lambda>j. Some (getCandidates pool ! j)) [0, 1, 2, 0, 1])"
proof -
  have cyc: "pickOneValue e pool s i d
           = Some (getCandidates pool ! (i mod length (getCandidates pool)))" for e s i d
    using assms by (simp add: pickOneValue_def Let_def js_nth_mod)
  show ?thesis by (simp add: cyc)
qed

theorem pickOneValue_cycles_witness:
  "\<not> isRandomized pool_xyz \<and> getCandidates pool_xyz \<noteq> []
   \<and> length (getCandidates pool_xyz) = 3
   \<and> map (\<lambda>i. pickOneValue (\<lambda>_. 0) pool_xyz 7 i ''s1'') [0, 1, 2, 3, 4]
       = [Some ''x'', Some ''y'', Some ''z'', Some ''x'', Some ''y'']"
proof -
  have h1: "\<not> isRandomized pool_xyz" by (simp add: pool_xyz_def)
  have h2: "getCandidates pool_xyz \<noteq> []" by (simp add: getCandidates_xyz)
  show ?thesis
    using h1 h2 pickOneValue_cycles [OF h1 h2, of "\<lambda>_. 0" 7 0 "''s1''" "\<lambda>_. 1 / 2" 8 "''s2''"]
    by (simp add: getCandidates_xyz)
qed

text \<open>
  C9.  Provided the host's \<open>Math.random\<close> returns doubles in \<open>[0, 1)\<close>, and for
  a candidate list that is an array (fewer than \<open>2^32\<close> elements),
  \<open>pickOneValue\<close> returns the empty string exactly when the resolved candidate
  list is empty, and otherwise returns an element of that list (never
  \<open>undefined\<close>): the draw \<open>u\<close> of the section generator lies in \<open>[0, 1)\<close>, and the
  index \<open>Math.floor(u * N)\<close>, with the product rounded to a double as the program
  computes it, lies in \<open>[0, N)\<close>.
\<close>

theorem pickOneValue_closed:
  assumes "\<forall>k. isDouble (env k) \<and> 0 \<le> env k \<and> env k < 1"
    and "length (getCandidates pool) < 2 ^ 32"
  shows "(pickOneValue env pool seedBase b sid = Some [] \<longleftrightarrow> getCandidates pool = [])
       \<and> (getCandidates pool \<noteq> [] \<longrightarrow>
            (\<exists>c \<in> set (getCandidates pool). pickOneValue env pool seedBase b sid = Some c))
       \<and> (let u = fst (rng_call env 0 (makeSectionRng seedBase b sid));
               N = length (getCandidates pool)
          in 0 \<le> u \<and> u < 1
             \<and> (0 < N \<longrightarrow> 0 \<le> \<lfloor>toDouble (u * of_nat N)\<rfloor> \<and> \<lfloor>toDouble (u * of_nat N)\<rfloor> < int N))"
proof -
  let ?cs = "getCandidates pool"
  let ?u = "fst (rng_call env 0 (makeSectionRng seedBase b sid))"
  have u: "isDouble ?u \<and> 0 \<le> ?u \<and> ?u < 1" using rng_call_range [OF assms(1)] .
  have n53: "length ?cs \<le> 2 ^ 53" using assms(2) by simp
  have idx: "0 \<le> \<lfloor>toDouble (?u * of_nat (length ?cs))\<rfloor>
      \<and> \<lfloor>toDouble (?u * of_nat (length ?cs))\<rfloor> < int (length ?cs)" if "0 < length ?cs"
    using floor_product_range [of ?u "length ?cs"] u that n53 by blast
  have elem: "\<exists>c \<in> set ?cs. pickOneValue env pool seedBase b sid = Some c" if ne: "?cs \<noteq> []"
  proof (cases "isRandomized pool")
    case True
    define i where "i = \<lfloor>toDouble (?u * of_nat (length ?cs))\<rfloor>"
    have "0 < length ?cs" using ne by simp
    from idx [OF this] have i: "0 \<le> i" "i < int (length ?cs)" by (simp_all only: i_def)
    then have "nat i < length ?cs" by linarith
    moreover have "js_nth ?cs i = Some (?cs ! nat i)" using i by (simp add: js_nth_def)
    moreover have "pickOneValue env pool seedBase b sid = js_nth ?cs i"
      using True ne by (simp add: pickOneValue_def Let_def i_def)
    ultimately show ?thesis by simp
  next
    case False
    then show ?thesis using ne by (simp add: pickOneValue_def Let_def js_nth_mod)
  qed
  have empty: "pickOneValue env pool seedBase b sid = Some [] \<longleftrightarrow> ?cs = []"
  proof
    assume r: "pickOneValue env pool seedBase b sid = Some []"
    show "?cs = []"
    proof (rule ccontr)
      assume "?cs \<noteq> []"
      from elem [OF this] r have "[] \<in> set ?cs" by auto
      then show False using getCandidates_nonempty by blast
    qed
  next
    assume "?cs = []"
    then show "pickOneValue env pool seedBase b sid = Some []" by (simp add: pickOneValue_def)
  qed
  show ?thesis using empty elem u idx by (simp add: Let_def)
qed

lemma near_two_thirds_double:
  "isDouble near_two_thirds \<and> 0 \<le> near_two_thirds \<and> near_two_thirds < 1"
proof -
  have "near_two_thirds = of_int 6004799503160661 * 2 powi (- 53)"
    by (simp add: near_two_thirds_def power_int_def power_divide)
  then have "isDouble near_two_thirds"
    by (intro isDoubleI [of _ 6004799503160661 "- 53"]) simp_all
  moreover have "0 \<le> near_two_thirds \<and> near_two_thirds < 1"
    by (simp add: near_two_thirds_def)
  ultimately show ?thesis by simp
qed


lemma pickOneValue_xyz_random_seeded:
  "pickOneValue (\<lambda>_. near_two_thirds) pool_xyz_random 42 0 ''abc'' = Some ''x''"
  by code_simp

lemma pickOneValue_xyz_random_unseeded:
  "pickOneValue (\<lambda>_. near_two_thirds) pool_xyz_random (-1) 0 ''abc'' = Some ''z''"
  by code_simp

theorem pickOneValue_closed_witness:
  "(\<forall>k. isDouble ((\<lambda>_. near_two_thirds) k) \<and> 0 \<le> (\<lambda>_. near_two_thirds) k
        \<and> (\<lambda>_. near_two_thirds) k < 1)
   \<and> length (getCandidates pool_xyz_random) < 2 ^ 32
   \<and> getCandidates pool_xyz_random \<noteq> []
   \<and> (\<exists>c \<in> set (getCandidates pool_xyz_random).
         pickOneValue (\<lambda>_. near_two_thirds) pool_xyz_random (-1) 0 ''abc'' = Some c)
   \<and> pickOneValue (\<lambda>_. near_two_thirds) pool_xyz_random (-1) 0 ''abc'' = Some ''z''
   \<and> pickOneValue (\<lambda>_. near_two_thirds) pool_xyz_random 42 0 ''abc'' = Some ''x''"
proof -
  have h: "\<forall>k. isDouble ((\<lambda>_. near_two_thirds) k) \<and> 0 \<le> (\<lambda>_. near_two_thirds) k
        \<and> (\<lambda>_. near_two_thirds) k < 1"
    using near_two_thirds_double by simp
  have l: "length (getCandidates pool_xyz_random) < 2 ^ 32"
    by (simp add: getCandidates_xyz_random)
  have ne: "getCandidates pool_xyz_random \<noteq> []" by (simp add: getCandidates_xyz_random)
  from pickOneValue_closed [OF h l, of "- 1" 0 "''abc''"] ne
  have ex: "\<exists>c \<in> set (getCandidates pool_xyz_random).
         pickOneValue (\<lambda>_. near_two_thirds) pool_xyz_random (-1) 0 ''abc'' = Some c"
    by blast
  show ?thesis
    by (intro conjI h l ne ex pickOneValue_xyz_random_unseeded pickOneValue_xyz_random_seeded)
qed

text \<open>
  C10.  For a pool whose randomize flag is off, the balanced plan for a batch of size
  \<open>B\<close> has exactly \<open>B\<close> entries, and entry \<open>b\<close> is the single draw at batch
  index \<open>b\<close>, for the same seed and section id.
\<close>

theorem makeBalancedPlan_refines_pickOneValue:
  assumes "\<not> isRandomized pool"
  shows "length (makeBalancedPlan env pool seedBase sid B) = B
       \<and> (\<forall>b < B. Some (makeBalancedPlan env pool seedBase sid B ! b)
                    = pickOneValue env' pool seedBase b sid)"
proof -
  let ?cs = "getCandidates pool"
  consider "length ?cs = 0" | "length ?cs = 1" | "1 < length ?cs" by linarith
  then show ?thesis
  proof cases
    case 1
    then show ?thesis by (simp add: makeBalancedPlan_def pickOneValue_def)
  next
    case 2
    then have "?cs \<noteq> []" by auto
    then show ?thesis
      using 2 assms by (simp add: makeBalancedPlan_def pickOneValue_def js_nth_def)
  next
    case 3
    then have "?cs \<noteq> []" by auto
    then show ?thesis
      using 3 assms by (simp add: makeBalancedPlan_def pickOneValue_def js_nth_mod Let_def)
  qed
qed

theorem makeBalancedPlan_refines_pickOneValue_witness:
  "\<not> isRandomized pool_xyz
   \<and> length (makeBalancedPlan (\<lambda>_. 0) pool_xyz 7 ''s1'' 5) = 5
   \<and> map (\<lambda>b. Some (makeBalancedPlan (\<lambda>_. 0) pool_xyz 7 ''s1'' 5 ! b)) [0, 1, 2, 3, 4]
       = map (\<lambda>b. pickOneValue (\<lambda>_. 1 / 2) pool_xyz 7 b ''s1'') [0, 1, 2, 3, 4]
   \<and> makeBalancedPlan (\<lambda>_. 0) pool_xyz 7 ''s1'' 5 = [''x'', ''y'', ''z'', ''x'', ''y'']"
proof -
  have h: "\<not> isRandomized pool_xyz" by (simp add: pool_xyz_def)
  have e: "makeBalancedPlan (\<lambda>_. 0) pool_xyz 7 ''s1'' 5 = [''x'', ''y'', ''z'', ''x'', ''y'']"
    by code_simp
  note t = makeBalancedPlan_refines_pickOneValue [OF h, of "\<lambda>_. 0" 7 "''s1''" 5 "\<lambda>_. 1 / 2"]
  then have p: "Some (makeBalancedPlan (\<lambda>_. 0) pool_xyz 7 ''s1'' 5 ! b)
                  = pickOneValue (\<lambda>_. 1 / 2) pool_xyz 7 b ''s1''" if "b < 5" for b
    using that by blast
  show ?thesis
    using h e t p [of 0] p [of 1] p [of 2] p [of 3] p [of 4] by simp
qed

section \<open>Properties of the candidate resolver with selections\<close>

text \<open>
  The \<open>seen\<close> filter of the source keeps the first entry of each lowercase form.
\<close>

lemma filterSeen_dedup:
  "filterSeen seen xs = dedupCaseInsensitive (filter (\<lambda>x. toLowerCase x \<notin> seen) xs)"
proof (induction xs arbitrary: seen)
  case Nil
  show ?case by simp
next
  case (Cons x xs)
  have "(\<lambda>y. toLowerCase y \<notin> insert (toLowerCase x) seen)
      = (\<lambda>y. toLowerCase y \<notin> seen \<and> toLowerCase y \<noteq> toLowerCase x)" by auto
  then show ?case by (simp add: Cons.IH)
qed

lemma normalize_dedup:
  "normalizeUniqueCaseInsensitive arr
     = dedupCaseInsensitive (filter (\<lambda>s. s \<noteq> []) (map trim arr))"
  by (simp add: normalizeUniqueCaseInsensitive_def filterSeen_dedup)

lemma dedup_distinct: "distinct (map toLowerCase (dedupCaseInsensitive xs))"
proof (induction xs rule: dedupCaseInsensitive.induct)
  case 1
  show ?case by simp
next
  case (2 x xs)
  have "set (dedupCaseInsensitive ys) \<subseteq> set ys" for ys
    by (induction ys rule: dedupCaseInsensitive.induct) auto
  from this [of "filter (\<lambda>y. toLowerCase y \<noteq> toLowerCase x) xs"] 2 show ?case by auto
qed

text \<open>
  C5, as amended.  When the selections are non-empty, the candidates are the
  selections, each trimmed, blank entries dropped, then deduplicated
  case-insensitively in order; they are case-insensitively distinct, and the list
  text and list array contribute nothing.  With list \<open>x,y,z\<close> and selections
  \<open>[y]\<close> the candidates are \<open>[y]\<close>.
\<close>

theorem getCandidates_selections_replace:
  assumes "selections pool = Some sel" and "sel \<noteq> []"
  shows "getCandidates pool = dedupCaseInsensitive (filter (\<lambda>s. s \<noteq> []) (map trim sel))
       \<and> distinct (map toLowerCase (getCandidates pool))
       \<and> getCandidates (pool\<lparr>listText := t, listArray := a\<rparr>) = getCandidates pool"
  using assms by (simp add: getCandidates_def normalize_dedup dedup_distinct)

theorem getCandidates_selections_replace_witness:
  "selections pool_pinned = Some [''y''] \<and> [''y''] \<noteq> ([] :: string list)
   \<and> listText pool_pinned = Some ''x,y,z''
   \<and> getCandidates pool_pinned = [''y'']
   \<and> getCandidates (pool_pinned\<lparr>listText := Some ''a,b'', listArray := None\<rparr>) = [''y'']"
proof -
  have h1: "selections pool_pinned = Some [''y'']" by (simp add: pool_pinned_def)
  have h2: "[''y''] \<noteq> ([] :: string list)" by simp
  have e: "dedupCaseInsensitive (filter (\<lambda>s. s \<noteq> []) (map trim [''y''])) = [''y'']"
    by code_simp
  show ?thesis
    using h1 h2 e getCandidates_selections_replace [OF h1 h2, where t = "Some ''a,b''" and a = None]
    by (simp add: pool_pinned_def)
qed

text \<open>
  C5 as stated fails: the candidates are not the selections deduplicated as they
  are.  The selections \<open>[" y", ""]\<close> resolve to \<open>["y"]\<close>, since the resolver trims
  every selection and drops the blank ones.
\<close>

theorem getCandidates_not_plain_dedup_counterexample:
  "selections pool_padded = Some ['' y'', ''''] \<and> ['' y'', ''''] \<noteq> ([] :: string list)
   \<and> getCandidates pool_padded = [''y'']
   \<and> dedupCaseInsensitive ['' y'', ''''] = ['' y'', '''']
   \<and> getCandidates pool_padded \<noteq> dedupCaseInsensitive ['' y'', '''']"
proof -
  have a: "getCandidates pool_padded = [''y'']" by code_simp
  have b: "dedupCaseInsensitive ['' y'', ''''] = ['' y'', '''']" by code_simp
  show ?thesis using a b by (simp add: pool_padded_def)
qed

text \<open>
  C6 as stated fails: \<open>getCandidates\<close> keeps a selection whose lowercase form is
  not among the tokens of the list text.
\<close>

theorem getCandidates_keeps_stale_counterexample:
  "listText pool_stale = Some ''x,y,z'' \<and> selections pool_stale = Some [''q'', ''Y'']
   \<and> toLowerCase ''q'' \<notin> set (map toLowerCase (toList ''x,y,z''))
   \<and> getCandidates pool_stale = [''q'', ''Y'']"
proof -
  have a: "getCandidates pool_stale = [''q'', ''Y'']" by code_simp
  have b: "map toLowerCase (toList ''x,y,z'') = [''x'', ''y'', ''z'']" by code_simp
  have c: "toLowerCase ''q'' = ''q''" by code_simp
  show ?thesis using a b c by (simp add: pool_stale_def)
qed

text \<open>\<open>trim\<close> leaves a trimmed string as it is, and tokens are trimmed.\<close>

lemma dropWhile_snoc_keep:
  "\<not> P x \<Longrightarrow> \<exists>ys. dropWhile P (zs @ [x]) = ys @ [x]"
  by (induction zs) auto

lemma trim_no_leading: "dropWhile isWhiteSpace (trim s) = trim s"
proof (cases "dropWhile isWhiteSpace s")
  case Nil
  show ?thesis unfolding trim_def Nil by simp
next
  case (Cons x a)
  then have nx: "\<not> isWhiteSpace x" using hd_dropWhile [of isWhiteSpace s] by auto
  from dropWhile_snoc_keep [of isWhiteSpace x "rev a"] nx
  obtain ys where "dropWhile isWhiteSpace (rev a @ [x]) = ys @ [x]" by blast
  then have "trim s = x # rev ys" unfolding trim_def Cons by simp
  then show ?thesis using nx by simp
qed

lemma trim_idem: "trim (trim s) = trim s"
proof -
  have "dropWhile isWhiteSpace (rev (trim s)) = rev (trim s)"
    by (simp add: trim_def dropWhile_idem)
  then show ?thesis
    unfolding trim_def [of "trim s"] by (simp add: trim_no_leading)
qed

lemma toList_trimmed: "t \<in> set (toList text) \<Longrightarrow> trim t = t"
proof -
  assume "t \<in> set (toList text)"
  then have "t \<in> set (map trim (split_list text))"
    using filterSeen_subset [of "{}" "filter (\<lambda>s. s \<noteq> []) (map trim (split_list text))"]
    by (auto simp: toList_def Let_def split: if_splits)
  then show ?thesis by (auto simp: trim_idem)
qed

lemma normalizeSelected_filter:
  "BoxEditor_normalizeSelected text sel
     = filter (\<lambda>s. toLowerCase (trim s) \<in> set (map toLowerCase (toList text))) sel"
proof -
  let ?f = "filter (\<lambda>s. toLowerCase (trim s) \<in> set (map toLowerCase (toList text))) sel"
  have "length ?f = length sel \<Longrightarrow> ?f = sel"
    by (metis filter_True length_filter_less less_irrefl filter_id_conv)
  then show ?thesis by (auto simp: BoxEditor_normalizeSelected_def Let_def)
qed

text \<open>
  C6, as amended.  \<open>getCandidates\<close> does not drop stale selections; the editor
  does.  The effect of \<open>BoxEditor\<close> keeps exactly the selections whose trimmed
  lowercase form is among the lowercased tokens of the list text, and for a pool
  whose selections have been reconciled in this way against its list text, the
  lowercase form of every resolved candidate is among the lowercased tokens.
\<close>

theorem reconciled_candidates_in_list:
  assumes "listArray pool = None" and "listText pool = Some text"
    and "selections pool = Some sel"
  shows "BoxEditor_normalizeSelected text sel
           = filter (\<lambda>s. toLowerCase (trim s) \<in> set (map toLowerCase (toList text))) sel
       \<and> (\<forall>c \<in> set (getCandidates (pool\<lparr>selections := Some (BoxEditor_normalizeSelected text sel)\<rparr>)).
             toLowerCase c \<in> set (map toLowerCase (toList text)))"
proof -
  let ?canon = "set (map toLowerCase (toList text))"
  let ?rec = "BoxEditor_normalizeSelected text sel"
  let ?pool = "pool\<lparr>selections := Some ?rec\<rparr>"
  have rec: "?rec = filter (\<lambda>s. toLowerCase (trim s) \<in> ?canon) sel"
    by (rule normalizeSelected_filter)
  have "toLowerCase c \<in> ?canon" if c: "c \<in> set (getCandidates ?pool)" for c
  proof (cases "?rec = []")
    case True
    then have "getCandidates ?pool = normalizeUniqueCaseInsensitive (toList text)"
      using assms by (simp add: getCandidates_def listFallback_def)
    then have "c \<in> set (map trim (toList text))"
      using c filterSeen_subset [of "{}" "filter (\<lambda>s. s \<noteq> []) (map trim (toList text))"]
      by (auto simp: normalizeUniqueCaseInsensitive_def)
    then have "c \<in> set (toList text)" by (auto simp: toList_trimmed)
    then show ?thesis by simp
  next
    case False
    then have "getCandidates ?pool = normalizeUniqueCaseInsensitive ?rec"
      by (simp add: getCandidates_def)
    then have "c \<in> set (map trim ?rec)"
      using c filterSeen_subset [of "{}" "filter (\<lambda>s. s \<noteq> []) (map trim ?rec)"]
      by (auto simp: normalizeUniqueCaseInsensitive_def)
    then obtain s where "s \<in> set ?rec" and "c = trim s" by auto
    then show ?thesis using rec by auto
  qed
  with rec show ?thesis by blast
qed

theorem reconciled_candidates_in_list_witness:
  "listArray pool_stale = None \<and> listText pool_stale = Some ''x,y,z''
   \<and> selections pool_stale = Some [''q'', ''Y'']
   \<and> BoxEditor_normalizeSelected ''x,y,z'' [''q'', ''Y''] = [''Y'']
   \<and> getCandidates
         (pool_stale\<lparr>selections := Some (BoxEditor_normalizeSelected ''x,y,z'' [''q'', ''Y''])\<rparr>)
       = [''Y'']
   \<and> toLowerCase ''Y'' \<in> set (map toLowerCase (toList ''x,y,z''))"
proof -
  have h1: "listArray pool_stale = None" by (simp add: pool_stale_def)
  have h2: "listText pool_stale = Some ''x,y,z''" by (simp add: pool_stale_def)
  have h3: "selections pool_stale = Some [''q'', ''Y'']" by (simp add: pool_stale_def)
  have e1: "BoxEditor_normalizeSelected ''x,y,z'' [''q'', ''Y''] = [''Y'']" by code_simp
  have e2: "getCandidates (pool_stale\<lparr>selections := Some [''Y'']\<rparr>) = [''Y'']" by code_simp
  from reconciled_candidates_in_list [OF h1 h2 h3] e1 e2
  have "toLowerCase ''Y'' \<in> set (map toLowerCase (toList ''x,y,z''))" by simp
  then show ?thesis using h1 h2 h3 e1 e2 by simp
qed

section \<open>Properties of the batch planning\<close>

text \<open>
  C7, as amended.  A requested batch size below 1 is not rejected: it is clamped to
  1, and (given an API key) the planning returns exactly one payload, the one for
  batch index 0.
\<close>

theorem onRun_clamps_batch:
  assumes "batch controls < 1" and "apiKey \<noteq> []"
  shows "onRun_payloads env apiKey controls sections
           = Inr [buildOne (env 0) sections 0 (seed controls)]"
  using assms by (simp add: onRun_payloads_def Let_def max_def)

theorem onRun_clamps_batch_witness:
  "batch controls_negative_batch < 1 \<and> ''sk-test'' \<noteq> []
   \<and> onRun_payloads (\<lambda>_ _ _. 0) ''sk-test'' controls_negative_batch [section_lens]
       = Inr [buildOne (\<lambda>_ _. 0) [section_lens] 0 7]
   \<and> buildOne (\<lambda>_ _. 0) [section_lens] 0 7 = [(''Lens'', ''x'')]"
proof -
  have h1: "batch controls_negative_batch < 1" by (simp add: controls_negative_batch_def)
  have h2: "''sk-test'' \<noteq> []" by simp
  have e: "buildOne (\<lambda>_ _. 0) [section_lens] 0 7 = [(''Lens'', ''x'')]" by code_simp
  show ?thesis
    using h1 h2 e onRun_clamps_batch [OF h1 h2, of "\<lambda>_ _ _. 0" "[section_lens]"]
    by (simp add: controls_negative_batch_def)
qed

text \<open>
  C7 as stated fails: with a requested batch size of 0 the planning draws and
  returns a payload; nothing is rejected.
\<close>

theorem onRun_no_InvalidArgument_counterexample:
  "batch controls_zero_batch < 1
   \<and> onRun_payloads (\<lambda>_ _ _. 0) ''sk-test'' controls_zero_batch [section_lens]
       = Inr [[(''Lens'', ''x'')]]"
proof -
  have "onRun_payloads (\<lambda>_ _ _. 0) ''sk-test'' controls_zero_batch [section_lens]
       = Inr [[(''Lens'', ''x'')]]" by code_simp
  then show ?thesis by (simp add: controls_zero_batch_def)
qed

section \<open>Properties of the dispatcher\<close>

lemma inflight_append: "inflight (ws @ [w]) = inflight ws + job_of w"
  by (induction ws) simp_all

lemma inflight_update:
  "w < length ws \<Longrightarrow> inflight (ws[w := x]) + job_of (ws ! w) = inflight ws + job_of x"
proof (induction ws arbitrary: w)
  case Nil
  then show ?case by simp
next
  case (Cons a ws)
  show ?case
  proof (cases w)
    case 0
    then show ?thesis by simp
  next
    case (Suc v)
    then have "v < length ws" using Cons.prems by simp
    from Cons.IH [OF this] show ?thesis using Suc by (simp add: ac_simps)
  qed
qed

lemma inflight_all_finished:
  "list_all (\<lambda>w. w = Finished) ws \<Longrightarrow> inflight ws = {#}"
  by (induction ws) simp_all

lemma not_all_finished:
  "\<not> list_all (\<lambda>w. w = Finished) ws \<Longrightarrow> \<exists>w i. w < length ws \<and> ws ! w = Awaiting i"
proof (induction ws)
  case Nil
  then show ?case by simp
next
  case (Cons a ws)
  show ?case
  proof (cases a)
    case (Awaiting i)
    then have "0 < length (a # ws) \<and> (a # ws) ! 0 = Awaiting i" by simp
    then show ?thesis by blast
  next
    case Finished
    then have "\<not> list_all (\<lambda>w. w = Finished) ws" using Cons.prems by simp
    from Cons.IH [OF this] obtain w i where "w < length ws" "ws ! w = Awaiting i" by blast
    then have "Suc w < length (a # ws) \<and> (a # ws) ! Suc w = Awaiting i" by simp
    then show ?thesis by blast
  qed
qed

lemma dispatch_inv_init:
  "dispatch_inv call qlen []
     \<lparr>index = 0, results = replicate qlen [],
      progress = \<lparr>p_total = qlen, p_done = 0, p_ok = 0, p_fail = 0\<rparr>, workers = []\<rparr>"
  by (simp add: dispatch_inv_def)

lemma dispatch_inv_start:
  assumes "dispatch_inv call qlen [] st"
  shows "dispatch_inv call qlen [] (worker_start qlen st)"
proof (cases "index st < qlen")
  case True
  then have "worker_start qlen st
      = st\<lparr>index := index st + 1, workers := workers st @ [Awaiting (index st)]\<rparr>"
    by (simp add: worker_start_def worker_loop_def)
  then show ?thesis using assms True by (auto simp: dispatch_inv_def inflight_append)
next
  case False
  then have "worker_start qlen st = st\<lparr>workers := workers st @ [Finished]\<rparr>"
    by (simp add: worker_start_def worker_loop_def)
  then show ?thesis using assms False by (auto simp: dispatch_inv_def inflight_append)
qed

lemma dispatch_inv_started_n:
  "dispatch_inv call qlen [] st \<Longrightarrow> dispatch_inv call qlen [] ((worker_start qlen ^^ n) st)"
  by (induction n) (simp_all add: dispatch_inv_start)

lemma dispatch_inv_started: "dispatch_inv call qlen [] (callLLM_started qlen maxParallel)"
  by (simp add: callLLM_started_def dispatch_inv_started_n dispatch_inv_init)

lemma workers_start_length: "length (workers (worker_start qlen st)) = Suc (length (workers st))"
  by (simp add: worker_start_def worker_loop_def)

lemma workers_started_n: "length (workers ((worker_start qlen ^^ n) st)) = n + length (workers st)"
  by (induction n) (simp_all add: workers_start_length)

lemma workers_started: "length (workers (callLLM_started qlen maxParallel)) = clampParallel maxParallel"
  by (simp add: callLLM_started_def workers_started_n)

lemma clampParallel_range: "1 \<le> clampParallel m \<and> clampParallel m \<le> 10"
  by (auto simp: clampParallel_def max_def min_def)


lemma worker_settle_progress:
  "p_done (progress (worker_settle r i st)) = p_done (progress st) + 1
   \<and> p_total (progress (worker_settle r i st)) = p_total (progress st)
   \<and> (p_ok (progress (worker_settle r i st)) = p_ok (progress st) + 1
        \<and> p_fail (progress (worker_settle r i st)) = p_fail (progress st)
      \<or> p_ok (progress (worker_settle r i st)) = p_ok (progress st)
        \<and> p_fail (progress (worker_settle r i st)) = p_fail (progress st) + 1)"
  by (cases r) (simp_all add: worker_settle_def)

lemma worker_settle_fields:
  "index (worker_settle r i st) = index st
   \<and> workers (worker_settle r i st) = workers st
   \<and> results (worker_settle r i st) = (results st)[i := output_of r]"
proof (cases r)
  case (Fulfilled result)
  then show ?thesis by (cases result) (simp_all add: worker_settle_def)
next
  case (Rejected e)
  then show ?thesis by (simp add: worker_settle_def)
qed

text \<open>One resumption, written out.\<close>

lemma worker_resume_awaiting:
  assumes "w < length (workers st)" and "workers st ! w = Awaiting i"
  shows "worker_resume call qlen w st =
     (let st' = worker_settle (call i) i st
      in if index st < qlen
         then st'\<lparr>index := index st + 1, workers := (workers st)[w := Awaiting (index st)]\<rparr>
         else st'\<lparr>workers := (workers st)[w := Finished]\<rparr>)"
  using assms by (simp add: worker_resume_def worker_loop_def worker_settle_fields Let_def)

lemma worker_resume_idle:
  assumes "\<not> w < length (workers st) \<or> workers st ! w = Finished"
  shows "worker_resume call qlen w st = st"
  using assms by (auto simp: worker_resume_def)


lemma dispatch_inv_awaited:
  assumes inv: "dispatch_inv call qlen tr st"
    and w: "w < length (workers st)" and a: "workers st ! w = Awaiting i"
  shows "i < index st \<and> i \<notin> set tr"
proof -
  from inflight_update [OF w, of Finished] a
  have "inflight (workers st) = inflight ((workers st)[w := Finished]) + {#i#}" by simp
  with inv have eq: "mset tr + inflight ((workers st)[w := Finished]) + {#i#} = mset [0..<index st]"
    by (simp add: dispatch_inv_def)
  then have "add_mset i (mset tr + inflight ((workers st)[w := Finished])) = mset [0..<index st]"
    by (simp del: mset_upt)
  then have "i \<in># mset [0..<index st]" by (rule union_single_eq_member)
  then have lt: "i < index st" by simp
  have "count (mset [0..<index st]) i \<le> 1"
    using distinct_count_atmost_1 [of "[0..<index st]"] by simp
  then have "count (mset tr) i = 0" using eq [symmetric] by (simp del: mset_upt)
  then have "i \<notin> set tr" by (simp add: count_eq_zero_iff)
  with lt show ?thesis by simp
qed

lemma settled_step:
  assumes "mset tr + A = M" and "B + {#i#} = A + X"
  shows "mset (tr @ [i]) + B = M + X"
proof -
  have "mset (tr @ [i]) + B = mset tr + (B + {#i#})" by simp
  also have "\<dots> = mset tr + (A + X)" by (simp only: assms(2))
  also have "\<dots> = M + X" using assms(1) by (simp only: add.assoc [symmetric])
  finally show ?thesis .
qed

lemma dispatch_inv_resume:
  assumes inv: "dispatch_inv call qlen tr st"
    and w: "w < length (workers st)" and a: "workers st ! w = Awaiting i"
  shows "dispatch_inv call qlen (tr @ [i]) (worker_resume call qlen w st)"
proof -
  from dispatch_inv_awaited [OF inv w a] have lt: "i < index st" and fresh: "i \<notin> set tr"
    by simp_all
  from inv have ile: "index st \<le> qlen" and len: "length (results st) = qlen"
    and ms: "mset tr + inflight (workers st) = mset [0..<index st]"
    and res: "\<forall>j \<in> set tr. results st ! j = output_of (call j)"
    and dn: "p_done (progress st) = length tr"
    and okf: "p_ok (progress st) + p_fail (progress st) = p_done (progress st)"
    and tot: "p_total (progress st) = qlen"
    and fin: "Finished \<in> set (workers st) \<longrightarrow> index st = qlen"
    by (simp_all add: dispatch_inv_def)
  let ?s = "worker_settle (call i) i st"
  note pr = worker_settle_progress [of "call i" i st]
  note fl = worker_settle_fields [of "call i" i st]
  have res': "\<forall>j \<in> set (tr @ [i]). (results st)[i := output_of (call i)] ! j = output_of (call j)"
    using res fresh lt ile len by (auto simp: nth_list_update)
  have upd: "inflight ((workers st)[w := x]) + {#i#} = inflight (workers st) + job_of x" for x
    using inflight_update [OF w, of x] a by simp
  show ?thesis
  proof (cases "index st < qlen")
    case True
    have st': "worker_resume call qlen w st
        = ?s\<lparr>index := index st + 1, workers := (workers st)[w := Awaiting (index st)]\<rparr>"
      using worker_resume_awaiting [OF w a, of call qlen] True by (simp add: Let_def)
    have ms': "mset (tr @ [i]) + inflight ((workers st)[w := Awaiting (index st)])
        = mset [0..<index st + 1]"
      using settled_step [OF ms upd [of "Awaiting (index st)"]] by (simp del: mset_upt)
    have fin': "Finished \<notin> set ((workers st)[w := Awaiting (index st)])"
    proof
      assume "Finished \<in> set ((workers st)[w := Awaiting (index st)])"
      then have "Finished \<in> set (workers st)"
        using set_update_subset_insert [of "workers st" w "Awaiting (index st)"] by auto
      with fin True show False by simp
    qed
    show ?thesis
      unfolding st' dispatch_inv_def
      using True len ms' res' dn okf tot fin' pr fl by auto
  next
    case False
    have st': "worker_resume call qlen w st = ?s\<lparr>workers := (workers st)[w := Finished]\<rparr>"
      using worker_resume_awaiting [OF w a, of call qlen] False by (simp add: Let_def)
    have ms': "mset (tr @ [i]) + inflight ((workers st)[w := Finished]) = mset [0..<index st]"
      using settled_step [OF ms upd [of Finished]] by (simp del: mset_upt)
    have eq: "index st = qlen" using False ile by simp
    show ?thesis
      unfolding st' dispatch_inv_def
      using eq len ms' res' dn okf tot pr fl by auto
  qed
qed


lemma dispatch_inv_run:
  "dispatch_inv call qlen tr st \<Longrightarrow>
     dispatch_inv call qlen (tr @ settled_jobs call qlen sched st)
       (fold (worker_resume call qlen) sched st)"
proof (induction sched arbitrary: tr st)
  case Nil
  then show ?case by simp
next
  case (Cons w sched)
  show ?case
  proof (cases "w < length (workers st) \<and> (\<exists>i. workers st ! w = Awaiting i)")
    case True
    then obtain i where w: "w < length (workers st)" and a: "workers st ! w = Awaiting i"
      by blast
    from Cons.IH [OF dispatch_inv_resume [OF Cons.prems w a]] show ?thesis
      using w a by simp
  next
    case False
    then have idle: "\<not> w < length (workers st) \<or> workers st ! w = Finished"
      by (cases "workers st ! w") auto
    then have "worker_resume call qlen w st = st" by (rule worker_resume_idle)
    moreover have "settled_jobs call qlen (w # sched) st = settled_jobs call qlen sched st"
      using idle by (auto simp: worker_resume_idle)
    ultimately show ?thesis using Cons.IH [OF Cons.prems] by simp
  qed
qed

lemma workers_resume_length:
  "length (workers (worker_resume call qlen w st)) = length (workers st)"
proof (cases "w < length (workers st) \<and> (\<exists>i. workers st ! w = Awaiting i)")
  case True
  then obtain i where w: "w < length (workers st)" and a: "workers st ! w = Awaiting i"
    by blast
  show ?thesis
    unfolding worker_resume_awaiting [OF w a]
    by (simp add: Let_def worker_settle_fields)
next
  case False
  then have "\<not> w < length (workers st) \<or> workers st ! w = Finished"
    by (cases "workers st ! w") auto
  then show ?thesis by (simp add: worker_resume_idle)
qed

lemma workers_run_length:
  "length (workers (fold (worker_resume call qlen) sched st)) = length (workers st)"
  by (induction sched arbitrary: st) (simp_all add: workers_resume_length)

text \<open>What the invariant gives once every worker has left its loop.\<close>

lemma dispatch_inv_finished:
  assumes inv: "dispatch_inv call qlen tr st"
    and fin: "list_all (\<lambda>w. w = Finished) (workers st)" and ne: "workers st \<noteq> []"
  shows "mset tr = mset [0..<qlen] \<and> length (results st) = qlen
       \<and> (\<forall>i < qlen. results st ! i = output_of (call i))
       \<and> p_total (progress st) = qlen \<and> p_done (progress st) = qlen
       \<and> p_ok (progress st) + p_fail (progress st) = qlen"
proof -
  from ne obtain a ws where "workers st = a # ws" by (cases "workers st") auto
  with fin have "Finished \<in> set (workers st)" by simp
  with inv have idx: "index st = qlen" by (simp add: dispatch_inv_def)
  from fin have "inflight (workers st) = {#}" by (rule inflight_all_finished)
  with inv idx have ms: "mset tr = mset [0..<qlen]" by (simp add: dispatch_inv_def del: mset_upt)
  then have "set tr = {0..<qlen}" using mset_eq_setD [OF ms] by simp
  moreover have "length tr = qlen" using mset_eq_length [OF ms] by simp
  ultimately show ?thesis using inv ms by (simp add: dispatch_inv_def del: mset_upt)
qed

text \<open>Every run can be completed: resuming a suspended worker makes progress.\<close>

lemma worker_resume_measure:
  assumes w: "w < length (workers st)" and a: "workers st ! w = Awaiting i"
  shows "(qlen - index (worker_resume call qlen w st))
           + size (inflight (workers (worker_resume call qlen w st)))
         < (qlen - index st) + size (inflight (workers st))"
proof -
  have upd: "size (inflight ((workers st)[w := x])) + 1
      = size (inflight (workers st)) + size (job_of x)" for x
  proof -
    from inflight_update [OF w, of x] a
    have "size (inflight ((workers st)[w := x]) + {#i#}) = size (inflight (workers st) + job_of x)"
      by simp
    then show ?thesis by simp
  qed
  show ?thesis
  proof (cases "index st < qlen")
    case True
    then show ?thesis
      unfolding worker_resume_awaiting [OF w a]
      using upd [of "Awaiting (index st)"] by (simp add: Let_def worker_settle_fields)
  next
    case False
    then show ?thesis
      unfolding worker_resume_awaiting [OF w a]
      using upd [of Finished] by (simp add: Let_def worker_settle_fields)
  qed
qed

lemma run_completes:
  "\<exists>sched. list_all (\<lambda>w. w = Finished) (workers (fold (worker_resume call qlen) sched st))"
proof (induction "(qlen - index st) + size (inflight (workers st))" arbitrary: st rule: less_induct)
  case less
  show ?case
  proof (cases "list_all (\<lambda>w. w = Finished) (workers st)")
    case True
    then have "list_all (\<lambda>w. w = Finished) (workers (fold (worker_resume call qlen) [] st))"
      by simp
    then show ?thesis by blast
  next
    case False
    from not_all_finished [OF this]
    obtain w i where w: "w < length (workers st)" and a: "workers st ! w = Awaiting i" by blast
    from less [OF worker_resume_measure [OF w a, of qlen call]]
    obtain sched where
      "list_all (\<lambda>w. w = Finished)
         (workers (fold (worker_resume call qlen) sched (worker_resume call qlen w st)))"
      by blast
    then have "list_all (\<lambda>w. w = Finished)
         (workers (fold (worker_resume call qlen) (w # sched) st))" by simp
    then show ?thesis by blast
  qed
qed

lemma callLLM_run_inv:
  "dispatch_inv call qlen (settled_jobs call qlen sched (callLLM_started qlen maxParallel))
     (callLLM_run call qlen maxParallel sched)"
  using dispatch_inv_run [OF dispatch_inv_started, where sched = sched]
  by (simp add: callLLM_run_def)

lemma callLLM_run_workers: "workers (callLLM_run call qlen maxParallel sched) \<noteq> []"
proof -
  have "length (workers (callLLM_run call qlen maxParallel sched)) = clampParallel maxParallel"
    by (simp add: callLLM_run_def workers_run_length workers_started)
  then show ?thesis using clampParallel_range [of maxParallel] by auto
qed

lemma callLLM_run_append:
  "callLLM_run call qlen maxParallel (sched @ later)
     = fold (worker_resume call qlen) later (callLLM_run call qlen maxParallel sched)"
  by (simp add: callLLM_run_def)

lemma callOpenAI_output:
  "output_of (Fulfilled (callOpenAI env net parse))
     = (case outcome (fetchWithRetry env net 500 3) of
          Inl err \<Rightarrow> []
        | Inr (status, body) \<Rightarrow> (case parse body of Content c \<Rightarrow> trim c | _ \<Rightarrow> []))"
  by (simp add: callOpenAI_def execute_def apiCall_def split: sum.split json_content.split prod.split)

lemma stub_run:
  "callLLM_run (\<lambda>i. stub_call i (three_payloads ! i)) 3 3 [2, 1, 0]
     = \<lparr>index = 3, results = [''p0!'', [], ''p2!''],
        progress = \<lparr>p_total = 3, p_done = 3, p_ok = 2, p_fail = 1\<rparr>,
        workers = [Finished, Finished, Finished]\<rparr>"
  by code_simp

lemma stub_dispatch:
  "callLLM ''sk-test'' id stub_call three_payloads 3 [2, 1, 0] = Resolves [''p0!'', [], ''p2!'']"
  by code_simp

text \<open>
  C2.  Whenever \<open>callLLM\<close> returns, under any order \<open>sched\<close> in which the
  workers' calls complete, the returned sequence has the length of the payload
  sequence and holds at every index \<open>i\<close> the output of the call made for
  \<open>payloads[i]\<close>; and \<open>callLLM\<close> does return: given an API key, every run can be
  continued to one that returns.  The output of a call made through \<open>callOpenAI\<close>
  is the trimmed content of the response when the request succeeds and the content
  is there, and the empty string otherwise.
\<close>

theorem callLLM_positional:
  "(callLLM apiKey build call payloads maxParallel sched = Resolves rs \<longrightarrow>
      length rs = length payloads
      \<and> (\<forall>i < length payloads. rs ! i = output_of (call i (build (payloads ! i)))))
   \<and> (apiKey \<noteq> [] \<longrightarrow>
        (\<exists>later rs'. callLLM apiKey build call payloads maxParallel (sched @ later) = Resolves rs'))
   \<and> output_of (Fulfilled (callOpenAI env net parse))
       = (case outcome (fetchWithRetry env net 500 3) of
            Inl err \<Rightarrow> []
          | Inr (status, body) \<Rightarrow> (case parse body of Content c \<Rightarrow> trim c | _ \<Rightarrow> []))"
proof -
  let ?queue = "map build payloads"
  let ?call = "\<lambda>i. call i (?queue ! i)"
  let ?n = "length ?queue"
  let ?run = "\<lambda>s. callLLM_run ?call ?n maxParallel s"
  have pos: "length rs = length payloads
      \<and> (\<forall>i < length payloads. rs ! i = output_of (call i (build (payloads ! i))))"
    if r: "callLLM apiKey build call payloads maxParallel sched = Resolves rs"
  proof -
    from r have fin: "list_all (\<lambda>w. w = Finished) (workers (?run sched))"
      and rs: "rs = results (?run sched)"
      by (auto simp: callLLM_def Let_def split: if_splits)
    from dispatch_inv_finished [OF callLLM_run_inv fin callLLM_run_workers]
    have "length (results (?run sched)) = ?n"
      and "\<forall>i < ?n. results (?run sched) ! i = output_of (?call i)" by blast+
    then show ?thesis using rs by simp
  qed
  have live: "\<exists>later rs'. callLLM apiKey build call payloads maxParallel (sched @ later) = Resolves rs'"
    if k: "apiKey \<noteq> []"
  proof -
    from run_completes [of ?call ?n "?run sched"]
    obtain later where "list_all (\<lambda>w. w = Finished) (workers (?run (sched @ later)))"
      by (auto simp: callLLM_run_append)
    then have "callLLM apiKey build call payloads maxParallel (sched @ later)
        = Resolves (results (?run (sched @ later)))"
      using k by (simp add: callLLM_def Let_def)
    then show ?thesis by blast
  qed
  show ?thesis using pos live callOpenAI_output by blast
qed

theorem callLLM_positional_witness:
  "callLLM ''sk-test'' id stub_call three_payloads 3 [2, 1, 0] = Resolves [''p0!'', [], ''p2!'']
   \<and> length [''p0!'', [], ''p2!''] = length three_payloads
   \<and> [''p0!'', [], ''p2!''] ! 0 = output_of (stub_call 0 (id (three_payloads ! 0)))
   \<and> [''p0!'', [], ''p2!''] ! 1 = output_of (stub_call 1 (id (three_payloads ! 1)))
   \<and> [''p0!'', [], ''p2!''] ! 2 = output_of (stub_call 2 (id (three_payloads ! 2)))"
proof -
  note e = stub_dispatch
  from callLLM_positional [where apiKey = "''sk-test''" and build = id and call = stub_call
      and payloads = three_payloads and maxParallel = 3 and sched = "[2, 1, 0]"
      and rs = "[''p0!'', [], ''p2!'']"] e
  have len: "length [''p0!'', [], ''p2!''] = length three_payloads"
    and pos: "\<forall>i < length three_payloads.
        [''p0!'', [], ''p2!''] ! i = output_of (stub_call i (id (three_payloads ! i)))"
    by blast+
  have "length three_payloads = 3" by (simp add: three_payloads_def)
  then have "0 < length three_payloads" "1 < length three_payloads" "2 < length three_payloads"
    by simp_all
  with pos e len show ?thesis by blast
qed

text \<open>
  C8.  When a dispatch over \<open>N\<close> payloads completes, \<open>total = N\<close>, \<open>done = N\<close> and
  \<open>ok + fail = N\<close>, and the queue indices settled along the run are exactly
  \<open>0..N-1\<close>, each once.  At every moment of the run \<open>done\<close> is the number of calls
  settled so far and \<open>ok + fail = done\<close>; \<open>done\<close> never decreases; every run can
  be continued to completion; and settling a call adds one to \<open>done\<close> and one to
  exactly one of \<open>ok\<close> and \<open>fail\<close>.
\<close>

theorem callLLM_progress:
  "(list_all (\<lambda>w. w = Finished) (workers (callLLM_run call qlen maxParallel sched)) \<longrightarrow>
      p_total (progress (callLLM_run call qlen maxParallel sched)) = qlen
      \<and> p_done (progress (callLLM_run call qlen maxParallel sched)) = qlen
      \<and> p_ok (progress (callLLM_run call qlen maxParallel sched))
          + p_fail (progress (callLLM_run call qlen maxParallel sched)) = qlen
      \<and> mset (settled_jobs call qlen sched (callLLM_started qlen maxParallel)) = mset [0..<qlen])
   \<and> p_done (progress (callLLM_run call qlen maxParallel sched))
       = length (settled_jobs call qlen sched (callLLM_started qlen maxParallel))
   \<and> p_ok (progress (callLLM_run call qlen maxParallel sched))
       + p_fail (progress (callLLM_run call qlen maxParallel sched))
       = p_done (progress (callLLM_run call qlen maxParallel sched))
   \<and> p_done (progress (callLLM_run call qlen maxParallel sched))
       \<le> p_done (progress (callLLM_run call qlen maxParallel (sched @ later)))
   \<and> (\<exists>rest. list_all (\<lambda>w. w = Finished)
                 (workers (callLLM_run call qlen maxParallel (sched @ rest))))
   \<and> p_done (progress (worker_settle r i st)) = p_done (progress st) + 1
   \<and> (p_ok (progress (worker_settle r i st)) = p_ok (progress st) + 1
        \<and> p_fail (progress (worker_settle r i st)) = p_fail (progress st)
      \<or> p_ok (progress (worker_settle r i st)) = p_ok (progress st)
        \<and> p_fail (progress (worker_settle r i st)) = p_fail (progress st) + 1)"
proof -
  let ?st = "callLLM_run call qlen maxParallel sched"
  let ?tr = "settled_jobs call qlen sched (callLLM_started qlen maxParallel)"
  note inv = callLLM_run_inv [of call qlen sched maxParallel]
  have fin: "p_total (progress ?st) = qlen \<and> p_done (progress ?st) = qlen
      \<and> p_ok (progress ?st) + p_fail (progress ?st) = qlen \<and> mset ?tr = mset [0..<qlen]"
    if "list_all (\<lambda>w. w = Finished) (workers ?st)"
    using dispatch_inv_finished [OF inv that callLLM_run_workers] by blast
  have dn: "p_done (progress ?st) = length ?tr"
    and okf: "p_ok (progress ?st) + p_fail (progress ?st) = p_done (progress ?st)"
    using inv by (simp_all add: dispatch_inv_def)
  have "dispatch_inv call qlen (?tr @ settled_jobs call qlen later ?st)
      (callLLM_run call qlen maxParallel (sched @ later))"
    using dispatch_inv_run [OF inv, of later] by (simp add: callLLM_run_append)
  then have mono: "p_done (progress ?st)
      \<le> p_done (progress (callLLM_run call qlen maxParallel (sched @ later)))"
    using dn by (simp add: dispatch_inv_def)
  from run_completes [of call qlen ?st]
  have live: "\<exists>rest. list_all (\<lambda>w. w = Finished)
      (workers (callLLM_run call qlen maxParallel (sched @ rest)))"
    by (simp add: callLLM_run_append)
  show ?thesis
    using fin dn okf mono live worker_settle_progress [of r i st] by blast
qed

theorem callLLM_progress_witness:
  "list_all (\<lambda>w. w = Finished)
     (workers (callLLM_run (\<lambda>i. stub_call i (three_payloads ! i)) 3 3 [2, 1, 0]))
   \<and> p_total (progress (callLLM_run (\<lambda>i. stub_call i (three_payloads ! i)) 3 3 [2, 1, 0])) = 3
   \<and> p_done (progress (callLLM_run (\<lambda>i. stub_call i (three_payloads ! i)) 3 3 [2, 1, 0])) = 3
   \<and> p_ok (progress (callLLM_run (\<lambda>i. stub_call i (three_payloads ! i)) 3 3 [2, 1, 0]))
       + p_fail (progress (callLLM_run (\<lambda>i. stub_call i (three_payloads ! i)) 3 3 [2, 1, 0])) = 3
   \<and> mset (settled_jobs (\<lambda>i. stub_call i (three_payloads ! i)) 3 [2, 1, 0] (callLLM_started 3 3))
       = mset [0..<3]"
proof -
  have fin: "list_all (\<lambda>w. w = Finished)
     (workers (callLLM_run (\<lambda>i. stub_call i (three_payloads ! i)) 3 3 [2, 1, 0]))"
    unfolding stub_run by simp
  from callLLM_progress [where call = "\<lambda>i. stub_call i (three_payloads ! i)" and qlen = 3
      and maxParallel = 3 and sched = "[2, 1, 0]"] fin
  show ?thesis by blast
qed

section \<open>The retry loop\<close>

text \<open>
  Whatever makes an attempt fail, the loop goes on to the next attempt: the error
  thrown for a status that is neither 429 nor 5xx is caught by the \<open>catch\<close> clause
  of the same iteration.
\<close>

lemma fetchWithRetry_loop_failing:
  assumes "attempt < tries" and "\<forall>res. try_block (net attempt) \<noteq> Returns res"
  shows "\<exists>err slept'. fetchWithRetry_loop env net baseDelay tries attempt lastErr slept
           = fetchWithRetry_loop env net baseDelay tries (attempt + 1) (Some err) slept'"
proof (cases "try_block (net attempt)")
  case (Returns res)
  with assms show ?thesis by simp
next
  case (Assigns err)
  with assms(1) show ?thesis
    by (subst fetchWithRetry_loop.simps) (auto simp: Let_def)
next
  case (Throws e)
  with assms(1) show ?thesis
    by (subst fetchWithRetry_loop.simps) (auto simp: Let_def)
qed

text \<open>
  C1.  The code does not do what the claim says.  A job whose every response is
  HTTP 400 (a client error) is fetched three times with two backoff delays, like a
  job whose every response is HTTP 429; the claim has it end after the first.
\<close>

theorem fetchWithRetry_retries_client_error:
  "fetchWithRetry (\<lambda>_. 0) (\<lambda>_. Response 400 ''bad request'') 500 3
     = \<lparr>outcome = Inl (HttpError 400 ''bad request''), fetches = 3, delays = [500, 1000]\<rparr>
   \<and> fetchWithRetry (\<lambda>_. 0) (\<lambda>_. Response 429 ''slow down'') 500 3
     = \<lparr>outcome = Inl (HttpError 429 ''slow down''), fetches = 3, delays = [500, 1000]\<rparr>"
  by code_simp

end
